theory Spec2Isabelle
  imports Main "HOL-Library.AList" "HOL-Library.Multiset"
begin

section \<open>Values\<close>

text \<open>
  Plain JavaScript data as it crosses the service: the JSON column \<open>bookDetails\<close>, the
  objects built by \<open>toJSON()\<close> and by object spread. \<open>JNull\<close> stands for both \<open>null\<close>
  and \<open>undefined\<close>. Numbers are integers (ids, ratings, millisecond timestamps);
  \<open>NaN\<close> and fractions are not modelled. An object is an association list; a key is
  read with \<open>map_of\<close>.
\<close>

datatype json =
    JNull
  | JBool bool
  | JNum int
  | JStr string
  | JArr "json list"
  | JObj "(string \<times> json) list"

type_synonym obj = "(string \<times> json) list"

text \<open>
  \<open>GoogleBooksApiResponse\<close> is declared in \<open>types/GoogleBooks.types.ts\<close>, which is not
  among the sources. It is an object; the service reads only \<open>volumeInfo?.title\<close> of it,
  every other key is left open.
\<close>

type_synonym GoogleBooksApiResponse = obj

text \<open>What a \<open>throw\<close> carries: an \<open>Error\<close> instance with its message, or any other value.\<close>

datatype thrown =
    JsError string
  | NonError string

text \<open>JavaScript truthiness, as used by \<open>!x\<close> and \<open>x ? a : b\<close>.\<close>

fun truthy :: "json \<Rightarrow> bool" where
  "truthy JNull = False"
| "truthy (JBool b) = b"
| "truthy (JNum n) = (n \<noteq> 0)"
| "truthy (JStr s) = (s \<noteq> [])"
| "truthy (JArr xs) = True"
| "truthy (JObj kvs) = True"

text \<open>
  Reading the property \<open>k\<close> of a value that is not \<open>null\<close>: an own key of an object, and
  \<open>undefined\<close> otherwise (the keys read here, \<open>volumeInfo\<close> and \<open>title\<close>, are not
  properties of strings, numbers, booleans or arrays).
\<close>

fun getProp :: "json \<Rightarrow> string \<Rightarrow> json" where
  "getProp (JObj kvs) k = (case map_of kvs k of None \<Rightarrow> JNull | Some v \<Rightarrow> v)"
| "getProp v k = JNull"

text \<open>Optional chaining \<open>v?.k\<close>.\<close>

definition optProp :: "json \<Rightarrow> string \<Rightarrow> json" where
  "optProp v k = (if v = JNull then JNull else getProp v k)"

text \<open>Object spread \<open>{...a, ...b}\<close>: the keys of \<open>b\<close> override those of \<open>a\<close>.\<close>

definition spread :: "obj \<Rightarrow> obj \<Rightarrow> obj" where
  "spread a b = AList.merge a b"

definition jsonOpt :: "('a \<Rightarrow> json) \<Rightarrow> 'a option \<Rightarrow> json" where
  "jsonOpt f x = (case x of None \<Rightarrow> JNull | Some v \<Rightarrow> f v)"

section \<open>The persistence layer and the metadata provider\<close>

text \<open>
  The rows of \<open>books\<close> and \<open>users_books\<close>. \<open>Book.model.ts\<close> is not among the sources; a
  book has the columns the service uses (primary key, \<open>quickLink\<close>, \<open>bookDetails\<close>).
  The columns of \<open>users_books\<close> are those of \<open>UsersBooks.init\<close> plus the \<open>import\<close> flag
  written by \<open>addBookToUser\<close>. The column \<open>id\<close> is \<open>b_id\<close>, respectively \<open>ub_id\<close>.
  A \<open>Date\<close> is its millisecond timestamp (an invalid \<open>Date\<close> is not modelled); the
  \<open>createdAt\<close>/\<open>updatedAt\<close> columns kept by the library are left out. The table
  \<open>users\<close> is the list of its keys.
\<close>

record Book =
  b_id :: int
  quickLink :: string
  bookDetails :: "GoogleBooksApiResponse option"

record UsersBooks =
  ub_id :: int
  userId :: int
  bookId :: int
  userRating :: "int option"
  dateStarted :: "int option"
  dateFinished :: "int option"
  userNotes :: "string option"
  importBook :: bool

text \<open>Every call to a collaborator (the store or the provider), in the order made.\<close>

datatype event =
    DbFindAll int
  | DbFindOneUserId int int
  | DbFindOneUserBook int int
  | DbFindOneId int
  | DbFindBookByPk int
  | DbCreate int int "int option" "int option" "int option" "string option" bool
  | DbUpdate int "int option" "int option" "int option" "string option"
  | DbUpdateBook int GoogleBooksApiResponse
  | DbDestroy int int
  | ProviderFetch string

record world =
  users :: "int list"
  books :: "Book list"
  usersBooks :: "UsersBooks list"
  nextId :: int
  trace :: "event list"

text \<open>
  The collaborators' behaviour that the service cannot see: what
  \<open>bookModule.getFromBookQuickLink\<close> (of \<open>modules/books\<close>, not among the sources) answers
  for a link, a metadata object or a thrown value; and which store calls fail, with
  what thrown value.
\<close>

record env =
  getFromBookQuickLink :: "string \<Rightarrow> thrown + GoogleBooksApiResponse"
  dbFault :: "event \<Rightarrow> thrown option"

text \<open>An \<open>async\<close> computation: it runs on the world and resolves or rejects.\<close>

type_synonym 'a io = "world \<Rightarrow> (thrown + 'a) \<times> world"

definition ret :: "'a \<Rightarrow> 'a io" where
  "ret x w = (Inr x, w)"

definition throw :: "thrown \<Rightarrow> 'a io" where
  "throw t w = (Inl t, w)"

definition andThen :: "'a io \<Rightarrow> ('a \<Rightarrow> 'b io) \<Rightarrow> 'b io" where
  "andThen m f w = (case m w of (Inl t, w') \<Rightarrow> (Inl t, w') | (Inr x, w') \<Rightarrow> f x w')"

text \<open>
  The \<open>catch\<close> block shared by the five operations:
  \<^verbatim>\<open>if (error instanceof Error) throw new Error(error.message);
  else throw new Error('An unknown error occurred');\<close>
\<close>

definition rethrow :: "thrown \<Rightarrow> thrown" where
  "rethrow t = (case t of JsError m \<Rightarrow> JsError m
                | NonError v \<Rightarrow> JsError ''An unknown error occurred'')"

definition tryCatch :: "'a io \<Rightarrow> 'a io" where
  "tryCatch m w = (case m w of (Inl t, w') \<Rightarrow> (Inl (rethrow t), w') | (Inr x, w') \<Rightarrow> (Inr x, w'))"

text \<open>A store call: it is recorded, then fails if the environment says so.\<close>

definition dbCall :: "env \<Rightarrow> event \<Rightarrow> 'a io \<Rightarrow> 'a io" where
  "dbCall env ev body w =
     (let w' = w\<lparr>trace := trace w @ [ev]\<rparr>
      in case dbFault env ev of Some t \<Rightarrow> (Inl t, w') | None \<Rightarrow> body w')"

definition fetchDetails :: "env \<Rightarrow> string \<Rightarrow> GoogleBooksApiResponse io" where
  "fetchDetails env link w =
     (getFromBookQuickLink env link, w\<lparr>trace := trace w @ [ProviderFetch link]\<rparr>)"

text \<open>The join \<open>include: [{ model: Book, as: 'book' }]\<close> (\<open>belongsTo\<close> on \<open>bookId\<close>).\<close>

definition joinBook :: "world \<Rightarrow> UsersBooks \<Rightarrow> UsersBooks \<times> Book option" where
  "joinBook w r = (r, find (\<lambda>b. b_id b = bookId r) (books w))"

text \<open>The rows of a user, each with its book: what \<open>findAll\<close> with the join resolves to.\<close>

definition userEntries :: "world \<Rightarrow> int \<Rightarrow> (UsersBooks \<times> Book option) list" where
  "userEntries w uid = map (joinBook w) (filter (\<lambda>r. userId r = uid) (usersBooks w))"

definition findAllForUser :: "env \<Rightarrow> int \<Rightarrow> (UsersBooks \<times> Book option) list io" where
  "findAllForUser env uid = dbCall env (DbFindAll uid) (\<lambda>w. (Inr (userEntries w uid), w))"

definition findOneUserId :: "env \<Rightarrow> int \<Rightarrow> int \<Rightarrow> UsersBooks option io" where
  "findOneUserId env uid aid =
     dbCall env (DbFindOneUserId uid aid)
       (\<lambda>w. (Inr (find (\<lambda>r. userId r = uid \<and> ub_id r = aid) (usersBooks w)), w))"

definition findOneUserIdWithBook :: "env \<Rightarrow> int \<Rightarrow> int \<Rightarrow> (UsersBooks \<times> Book option) option io" where
  "findOneUserIdWithBook env uid aid =
     dbCall env (DbFindOneUserId uid aid)
       (\<lambda>w. (Inr (map_option (joinBook w)
                    (find (\<lambda>r. userId r = uid \<and> ub_id r = aid) (usersBooks w))), w))"

definition findOneUserBook :: "env \<Rightarrow> int \<Rightarrow> int \<Rightarrow> UsersBooks option io" where
  "findOneUserBook env uid bid =
     dbCall env (DbFindOneUserBook uid bid)
       (\<lambda>w. (Inr (find (\<lambda>r. userId r = uid \<and> bookId r = bid) (usersBooks w)), w))"

definition findOneId :: "env \<Rightarrow> int \<Rightarrow> (UsersBooks \<times> Book option) option io" where
  "findOneId env aid =
     dbCall env (DbFindOneId aid)
       (\<lambda>w. (Inr (map_option (joinBook w) (find (\<lambda>r. ub_id r = aid) (usersBooks w))), w))"

definition findBookByPk :: "env \<Rightarrow> int \<Rightarrow> Book option io" where
  "findBookByPk env bid =
     dbCall env (DbFindBookByPk bid) (\<lambda>w. (Inr (find (\<lambda>b. b_id b = bid) (books w)), w))"

text \<open>
  The validators of \<open>UsersBooks.init\<close>: \<open>userRating\<close> has \<open>min: 1, max: 10\<close>,
  \<open>userNotes\<close> has \<open>len: [1, 1000]\<close>; a \<open>null\<close> value of a nullable column is not
  validated. The texts of the errors raised by the library are not part of the
  repository; the model fixes one text for each, and reports the first validator that
  fails.
\<close>

definition validateRow :: "int option \<Rightarrow> string option \<Rightarrow> thrown option" where
  "validateRow rating notes =
     (if (case rating of None \<Rightarrow> False | Some n \<Rightarrow> n < 1)
      then Some (JsError ''Validation error: Validation min on userRating failed'')
      else if (case rating of None \<Rightarrow> False | Some n \<Rightarrow> n > 10)
      then Some (JsError ''Validation error: Validation max on userRating failed'')
      else if (case notes of None \<Rightarrow> False | Some s \<Rightarrow> length s < 1 \<or> length s > 1000)
      then Some (JsError ''Validation error: Validation len on userNotes failed'')
      else None)"

text \<open>
  \<open>UsersBooks.create\<close>: validation, then the insert, which the store refuses when
  \<open>userId\<close> or \<open>bookId\<close> references no row (\<open>references: { model: 'users', key: 'id' }\<close>),
  then the new row with the next value of the auto-increment key.
\<close>

definition createUsersBooks ::
  "env \<Rightarrow> int \<Rightarrow> int \<Rightarrow> int option \<Rightarrow> int option \<Rightarrow> int option \<Rightarrow> string option \<Rightarrow> bool
     \<Rightarrow> UsersBooks io" where
  "createUsersBooks env uid bid rating started finished notes imp =
     dbCall env (DbCreate uid bid rating started finished notes imp)
       (\<lambda>w. case validateRow rating notes of
               Some t \<Rightarrow> (Inl t, w)
             | None \<Rightarrow>
                 if uid \<notin> set (users w) \<or> bid \<notin> set (map b_id (books w))
                 then (Inl (JsError ''insert or update on table users_books violates foreign key constraint''), w)
                 else
                   (let row = \<lparr>ub_id = nextId w, userId = uid, bookId = bid, userRating = rating,
                               dateStarted = started, dateFinished = finished, userNotes = notes,
                               importBook = imp\<rparr>
                    in (Inr row, w\<lparr>usersBooks := usersBooks w @ [row], nextId := nextId w + 1\<rparr>)))"

text \<open>\<open>userBook.update({ userRating, dateStarted, dateFinished, userNotes })\<close>.\<close>

definition updateRow ::
  "env \<Rightarrow> UsersBooks \<Rightarrow> int option \<Rightarrow> int option \<Rightarrow> int option \<Rightarrow> string option \<Rightarrow> UsersBooks io" where
  "updateRow env r rating started finished notes =
     dbCall env (DbUpdate (ub_id r) rating started finished notes)
       (\<lambda>w. case validateRow rating notes of
               Some t \<Rightarrow> (Inl t, w)
             | None \<Rightarrow>
                 (let set_fields = (\<lambda>x. x\<lparr>userRating := rating, dateStarted := started,
                                         dateFinished := finished, userNotes := notes\<rparr>)
                  in (Inr (set_fields r),
                      w\<lparr>usersBooks := map (\<lambda>x. if ub_id x = ub_id r then set_fields x else x)
                                         (usersBooks w)\<rparr>)))"

text \<open>\<open>userBook.book.update({ bookDetails })\<close>: the instance and its row get the new value.\<close>

definition updateBookDetails :: "env \<Rightarrow> Book \<Rightarrow> GoogleBooksApiResponse \<Rightarrow> Book io" where
  "updateBookDetails env b d =
     dbCall env (DbUpdateBook (b_id b) d)
       (\<lambda>w. (Inr (b\<lparr>bookDetails := Some d\<rparr>),
             w\<lparr>books := map (\<lambda>x. if b_id x = b_id b then x\<lparr>bookDetails := Some d\<rparr> else x)
                             (books w)\<rparr>))"

text \<open>\<open>UsersBooks.destroy({ where: { userId, id } })\<close> resolves to the number of rows deleted.\<close>

definition destroyUsersBooks :: "env \<Rightarrow> int \<Rightarrow> int \<Rightarrow> nat io" where
  "destroyUsersBooks env uid aid =
     dbCall env (DbDestroy uid aid)
       (\<lambda>w. (Inr (length (filter (\<lambda>r. userId r = uid \<and> ub_id r = aid) (usersBooks w))),
             w\<lparr>usersBooks := filter (\<lambda>r. \<not> (userId r = uid \<and> ub_id r = aid)) (usersBooks w)\<rparr>))"

section \<open>The service\<close>

text \<open>
  \<open>toJSON()\<close> of a book row and of an association row loaded with its book.
\<close>

definition bookToJSON :: "Book \<Rightarrow> obj" where
  "bookToJSON b =
     [(''id'', JNum (b_id b)),
      (''quickLink'', JStr (quickLink b)),
      (''bookDetails'', jsonOpt JObj (bookDetails b))]"

definition usersBooksToJSON :: "UsersBooks \<Rightarrow> Book \<Rightarrow> obj" where
  "usersBooksToJSON r b =
     [(''id'', JNum (ub_id r)),
      (''userId'', JNum (userId r)),
      (''bookId'', JNum (bookId r)),
      (''userRating'', jsonOpt JNum (userRating r)),
      (''dateStarted'', jsonOpt JNum (dateStarted r)),
      (''dateFinished'', jsonOpt JNum (dateFinished r)),
      (''userNotes'', jsonOpt JStr (userNotes r)),
      (''import'', JBool (importBook r)),
      (''book'', JObj (bookToJSON b))]"

text \<open>
  Reading \<open>userBook.book.bookDetails\<close> or \<open>.quickLink\<close> when the join found no book
  throws a \<open>TypeError\<close> (an \<open>Error\<close>; its text is the engine's).
\<close>

definition nullBookError :: thrown where
  "nullBookError = JsError ''Cannot read properties of null''"

subsection \<open>getBooksForUser\<close>

text \<open>The test \<open>!bookDetails || !bookDetails.volumeInfo?.title\<close>.\<close>

definition cacheStale :: "GoogleBooksApiResponse option \<Rightarrow> bool" where
  "cacheStale bd =
     (case bd of
        None \<Rightarrow> True
      | Some d \<Rightarrow> \<not> truthy (optProp (getProp (JObj d) ''volumeInfo'') ''title''))"

text \<open>
  The object returned for one association:
  \<^verbatim>\<open>{ ...userBook.toJSON(), book: { ...userBook.book.toJSON(), bookDetails } }\<close>
\<close>

definition entryObject :: "UsersBooks \<Rightarrow> Book \<Rightarrow> GoogleBooksApiResponse option \<Rightarrow> obj" where
  "entryObject r b bd =
     spread (usersBooksToJSON r b)
       [(''book'', JObj (spread (bookToJSON b) [(''bookDetails'', jsonOpt JObj bd)]))]"

text \<open>
  The callback mapped over the associations is an \<open>async\<close> function with two
  suspension points, \<open>await bookModule.getFromBookQuickLink(...)\<close> and
  \<open>await userBook.book.update({ bookDetails })\<close>. A task is one call of it: settled
  (resolved with its entry or rejected), suspended at the first \<open>await\<close> with the
  outcome the provider's promise will have, or suspended at the second with the outcome
  of the update (the entry to return, or the value thrown).
\<close>

datatype task =
    Settled "thrown + obj"
  | AwaitFetch UsersBooks Book "thrown + GoogleBooksApiResponse"
  | AwaitUpdate "thrown + obj"

text \<open>
  The callback from its call to its first suspension. Reading \<open>userBook.book.bookDetails\<close>
  of a \<open>null\<close> book rejects at once; a fresh cache resolves at once with the cached
  value as \<open>bookDetails\<close>; a stale cache calls the provider and suspends.
\<close>

definition startCallback :: "env \<Rightarrow> UsersBooks \<times> Book option \<Rightarrow> world \<Rightarrow> task \<times> world" where
  "startCallback env e w =
     (case snd e of
        None \<Rightarrow> (Settled (Inl nullBookError), w)
      | Some b \<Rightarrow>
          if cacheStale (bookDetails b)
          then (case fetchDetails env (quickLink b) w of (x, w') \<Rightarrow> (AwaitFetch (fst e) b x, w'))
          else (Settled (Inr (entryObject (fst e) b (bookDetails b))), w))"

text \<open>
  The callback resumed. After the provider's promise: its rejection rejects the
  callback; its value is written to the book, and the callback suspends on the update.
  After the update: the callback settles, with the entry built from the updated book
  and the fetched metadata, or with the failure of the update.
\<close>

fun resumeCallback :: "env \<Rightarrow> task \<Rightarrow> world \<Rightarrow> task \<times> world" where
  "resumeCallback env (Settled x) w = (Settled x, w)"
| "resumeCallback env (AwaitFetch r b (Inl t)) w = (Settled (Inl t), w)"
| "resumeCallback env (AwaitFetch r b (Inr d)) w =
     (case updateBookDetails env b d w of
        (Inl t, w') \<Rightarrow> (AwaitUpdate (Inl t), w')
      | (Inr b', w') \<Rightarrow> (AwaitUpdate (Inr (entryObject r b' (Some d))), w'))"
| "resumeCallback env (AwaitUpdate x) w = (Settled x, w)"

text \<open>
  \<open>books.map(callback)\<close> calls the callback on every association in turn; each call
  runs to its first suspension before the next starts, so every provider call is made
  before any callback is resumed.
\<close>

fun startAll :: "env \<Rightarrow> (UsersBooks \<times> Book option) list \<Rightarrow> world \<Rightarrow> task list \<times> world" where
  "startAll env [] w = ([], w)"
| "startAll env (e # es) w =
     (case startCallback env e w of
        (t, w') \<Rightarrow> (case startAll env es w' of (ts, w'') \<Rightarrow> (t # ts, w'')))"

text \<open>
  \<open>Promise.all\<close> rejects with the rejection that comes first in time. Among the
  callbacks that reject before suspending, that is the first of the list.
\<close>

fun firstRejection :: "task list \<Rightarrow> thrown option" where
  "firstRejection [] = None"
| "firstRejection (Settled (Inl t) # ts) = Some t"
| "firstRejection (x # ts) = firstRejection ts"

text \<open>
  The event loop: the tasks, the first rejection seen so far, and the world.
  One turn resumes the task at a position of the list (a position outside the list,
  or of a settled task, changes nothing).
\<close>

record loop =
  tasks :: "task list"
  rejection :: "thrown option"
  wld :: world

definition resumeAt :: "env \<Rightarrow> nat \<Rightarrow> loop \<Rightarrow> loop" where
  "resumeAt env i s =
     (if i < length (tasks s)
      then (case resumeCallback env (tasks s ! i) (wld s) of
              (t', w') \<Rightarrow>
                \<lparr>tasks = (tasks s)[i := t'],
                 rejection =
                   (case rejection s of
                      Some x \<Rightarrow> Some x
                    | None \<Rightarrow> (case t' of Settled (Inl t) \<Rightarrow> Some t | _ \<Rightarrow> None)),
                 wld = w'\<rparr>)
      else s)"

fun runSchedule :: "env \<Rightarrow> nat list \<Rightarrow> loop \<Rightarrow> loop" where
  "runSchedule env [] s = s"
| "runSchedule env (i # sched) s = runSchedule env sched (resumeAt env i s)"

text \<open>The values a resolved \<open>Promise.all\<close> carries, in the order of the list.\<close>

fun resolved :: "task list \<Rightarrow> obj list" where
  "resolved [] = []"
| "resolved (Settled (Inr v) # ts) = v # resolved ts"
| "resolved (x # ts) = resolved ts"

text \<open>
  \<open>await Promise.all(books.map(callback))\<close>. The order in which the suspended callbacks
  are resumed is that in which the promises of the provider and of the store settle;
  the service does not decide it, so it is a parameter: \<open>sched\<close> lists the positions of
  the callbacks in the order of their turns. Callbacks still suspended after these turns
  are resumed in the order of the list, so that every callback runs to its end, whatever
  the others do. The result is the first rejection if there is one, and the list of the
  entries otherwise; the world returned is the one left when all callbacks have ended
  (a rejection does not stop the other callbacks).
\<close>

definition promiseAllMap ::
  "env \<Rightarrow> nat list \<Rightarrow> (UsersBooks \<times> Book option) list \<Rightarrow> obj list io" where
  "promiseAllMap env sched es w =
     (case startAll env es w of
        (ts, w') \<Rightarrow>
          (let s = runSchedule env (sched @ [0..<length ts] @ [0..<length ts])
                     \<lparr>tasks = ts, rejection = firstRejection ts, wld = w'\<rparr>
           in ((case rejection s of Some t \<Rightarrow> Inl t | None \<Rightarrow> Inr (resolved (tasks s))),
               wld s)))"

definition getBooksForUser :: "env \<Rightarrow> nat list \<Rightarrow> int \<Rightarrow> obj list io" where
  "getBooksForUser env sched uid =
     tryCatch (andThen (findAllForUser env uid) (promiseAllMap env sched))"

subsection \<open>getBookForUser\<close>

definition getBookForUser :: "env \<Rightarrow> int \<Rightarrow> int \<Rightarrow> obj option io" where
  "getBookForUser env uid aid =
     tryCatch
       (andThen (findOneUserIdWithBook env uid aid)
          (\<lambda>book. case book of
                     None \<Rightarrow> ret None
                   | Some e \<Rightarrow>
                       (case snd e of
                          None \<Rightarrow> throw nullBookError
                        | Some b \<Rightarrow>
                            andThen (fetchDetails env (quickLink b))
                              (\<lambda>bookDetails'.
                                 ret (Some (spread (usersBooksToJSON (fst e) b)
                                              [(''book'', JObj (spread (bookToJSON b) bookDetails'))]))))))"

subsection \<open>addBookToUser\<close>

text \<open>
  The input checks: \<open>userRating !== null && userRating > 10\<close>, then the two date
  checks shared with \<open>updateUserBook\<close>; \<open>now\<close> is the value of \<open>new Date()\<close>. A
  \<open>Date\<close> object is always truthy.
\<close>

definition ratingAbove10 :: "int option \<Rightarrow> bool" where
  "ratingAbove10 rating = (case rating of None \<Rightarrow> False | Some n \<Rightarrow> n > 10)"

definition startedAfterFinished :: "int option \<Rightarrow> int option \<Rightarrow> bool" where
  "startedAfterFinished started finished =
     (case started of
        None \<Rightarrow> False
      | Some s \<Rightarrow> (case finished of None \<Rightarrow> False | Some f \<Rightarrow> s > f))"

definition startedInFuture :: "int \<Rightarrow> int option \<Rightarrow> bool" where
  "startedInFuture now started = (case started of None \<Rightarrow> False | Some s \<Rightarrow> s > now)"

text \<open>\<open>userRating ? userRating : null\<close> and \<open>userNotes?.length ? userNotes : null\<close>.\<close>

definition ratingOrNull :: "int option \<Rightarrow> int option" where
  "ratingOrNull rating = (case rating of None \<Rightarrow> None | Some n \<Rightarrow> if n \<noteq> 0 then Some n else None)"

definition notesOrNull :: "string option \<Rightarrow> string option" where
  "notesOrNull notes = (case notes of None \<Rightarrow> None | Some s \<Rightarrow> if length s \<noteq> 0 then Some s else None)"

text \<open>
  The result is the instance returned: the existing row as found (without its book),
  or the created row read again with its book (\<open>null\<close> if that read finds none).
\<close>

definition addBookToUser ::
  "env \<Rightarrow> int \<Rightarrow> int \<Rightarrow> int \<Rightarrow> int option \<Rightarrow> int option \<Rightarrow> int option \<Rightarrow> string option \<Rightarrow> bool
     \<Rightarrow> (UsersBooks \<times> Book option) option io" where
  "addBookToUser env now uid bid rating started finished notes imp =
     (if ratingAbove10 rating
      then throw (JsError ''User rating must be between 1 and 10'')
      else if startedAfterFinished started finished
      then throw (JsError ''Date started must be before date finished'')
      else if startedInFuture now started
      then throw (JsError ''Date started must be in the past'')
      else
        andThen (findBookByPk env bid)
          (\<lambda>bookExists.
             if bookExists = None then throw (JsError ''Book does not exist'')
             else
               tryCatch
                 (andThen (findOneUserBook env uid bid)
                    (\<lambda>existingBook.
                       case existingBook of
                         Some e \<Rightarrow> ret (Some (e, None))
                       | None \<Rightarrow>
                           andThen
                             (createUsersBooks env uid bid (ratingOrNull rating) started finished
                                (notesOrNull notes) imp)
                             (\<lambda>userBook. findOneId env (ub_id userBook))))))"

subsection \<open>updateUserBook\<close>

text \<open>\<open>userRating !== null && (userRating < 1 || userRating > 10)\<close>.\<close>

definition ratingOutOfRange :: "int option \<Rightarrow> bool" where
  "ratingOutOfRange rating = (case rating of None \<Rightarrow> False | Some n \<Rightarrow> n < 1 \<or> n > 10)"

definition updateUserBook ::
  "env \<Rightarrow> int \<Rightarrow> int \<Rightarrow> int \<Rightarrow> int option \<Rightarrow> int option \<Rightarrow> int option \<Rightarrow> string option
     \<Rightarrow> (UsersBooks \<times> Book option) option io" where
  "updateUserBook env now uid aid rating started finished notes =
     (if ratingOutOfRange rating
      then throw (JsError ''User rating must be between 1 and 10'')
      else if startedAfterFinished started finished
      then throw (JsError ''Date started must be before date finished'')
      else if startedInFuture now started
      then throw (JsError ''Date started must be in the past'')
      else
        tryCatch
          (andThen (findOneUserId env uid aid)
             (\<lambda>userBook.
                case userBook of
                  None \<Rightarrow> throw (JsError ''Book not found for this user'')
                | Some r \<Rightarrow>
                    andThen (updateRow env r rating started finished notes)
                      (\<lambda>u. findOneId env (ub_id r)))))"

subsection \<open>deleteBookFromUser\<close>

definition deleteBookFromUser :: "env \<Rightarrow> int \<Rightarrow> int \<Rightarrow> unit io" where
  "deleteBookFromUser env uid aid =
     tryCatch
       (andThen (destroyUsersBooks env uid aid)
          (\<lambda>result. if result = 0 then throw (JsError ''Book not found'') else ret ()))"

section \<open>Notions used to state the properties\<close>

text \<open>
  Valid cached metadata as the specification words it: a blob that is not \<open>null\<close> and
  whose nested title (\<open>volumeInfo.title\<close>) is present and not empty.
\<close>

definition nestedTitle :: "GoogleBooksApiResponse \<Rightarrow> json option" where
  "nestedTitle d =
     (case map_of d ''volumeInfo'' of
        Some (JObj vi) \<Rightarrow> map_of vi ''title''
      | _ \<Rightarrow> None)"

definition validCachedMetadata :: "GoogleBooksApiResponse option \<Rightarrow> bool" where
  "validCachedMetadata bd =
     (case bd of
        None \<Rightarrow> False
      | Some d \<Rightarrow> (case nestedTitle d of Some (JStr t) \<Rightarrow> t \<noteq> [] | _ \<Rightarrow> False))"

text \<open>
  The typing of the title: when the nested title is present it is a string or \<open>null\<close>
  (the service's own interface \<open>BookDetails\<close> declares \<open>title: string\<close>). On other
  values the code's test is JavaScript truthiness: a title \<open>0\<close> or \<open>false\<close> counts as
  missing, any other number, \<open>true\<close>, an array or an object as present.
\<close>

definition titleWellTyped :: "GoogleBooksApiResponse option \<Rightarrow> bool" where
  "titleWellTyped bd =
     (case bd of
        None \<Rightarrow> True
      | Some d \<Rightarrow>
          (case nestedTitle d of
             None \<Rightarrow> True
           | Some JNull \<Rightarrow> True
           | Some (JStr t) \<Rightarrow> True
           | Some _ \<Rightarrow> False))"

text \<open>The books joined to a list of associations, in order.\<close>

fun joinedBooks :: "(UsersBooks \<times> Book option) list \<Rightarrow> Book list" where
  "joinedBooks [] = []"
| "joinedBooks ((r, None) # es) = joinedBooks es"
| "joinedBooks ((r, Some b) # es) = b # joinedBooks es"

text \<open>
  The calls that refresh the cache of one book: the provider is asked, and its answer
  (if it gives one) is written to the book.
\<close>

definition fetchCall :: "Book \<Rightarrow> event" where
  "fetchCall b = ProviderFetch (quickLink b)"

definition writeCalls :: "env \<Rightarrow> Book \<Rightarrow> event list" where
  "writeCalls env b =
     (case getFromBookQuickLink env (quickLink b) of
        Inl t \<Rightarrow> []
      | Inr d \<Rightarrow> [DbUpdateBook (b_id b) d])"

text \<open>A book with the provider's answer as its metadata (the book itself if there is none).\<close>

definition withFetched :: "env \<Rightarrow> Book \<Rightarrow> Book" where
  "withFetched env b =
     (case getFromBookQuickLink env (quickLink b) of
        Inl t \<Rightarrow> b
      | Inr d \<Rightarrow> b\<lparr>bookDetails := Some d\<rparr>)"

text \<open>
  A book as the list operation leaves it: with the provider's answer as its metadata
  when its cache was found stale, untouched otherwise; and the entry returned for an
  association with such a book.
\<close>

definition refreshed :: "env \<Rightarrow> Book \<Rightarrow> Book" where
  "refreshed env b = (if cacheStale (bookDetails b) then withFetched env b else b)"

definition entryView :: "env \<Rightarrow> UsersBooks \<times> Book option \<Rightarrow> obj" where
  "entryView env e =
     (case snd e of
        None \<Rightarrow> []
      | Some b \<Rightarrow> entryObject (fst e) (refreshed env b) (bookDetails (refreshed env b)))"

text \<open>The books of a user's associations, in the order of the associations.\<close>

definition userBooks :: "world \<Rightarrow> int \<Rightarrow> Book list" where
  "userBooks w uid = joinedBooks (userEntries w uid)"

text \<open>The keys of the books, among those joined to a list of associations, whose cache is stale.\<close>

definition staleIds :: "(UsersBooks \<times> Book option) list \<Rightarrow> int set" where
  "staleIds es = b_id ` {b \<in> set (joinedBooks es). cacheStale (bookDetails b)}"

text \<open>
  The calls an operation has made: what it has added to the trace. And the value a call
  fails with, if it does: the provider's rejection for a fetch; for a store call the
  fault of the store, or else the refusal of a row by the validators of the model or by
  the foreign keys.
\<close>

definition newCalls :: "world \<Rightarrow> world \<Rightarrow> event list" where
  "newCalls w w' = drop (length (trace w)) (trace w')"

fun refusal :: "world \<Rightarrow> event \<Rightarrow> thrown option" where
  "refusal w (DbCreate uid bid rating started finished notes imp) =
     (case validateRow rating notes of
        Some t \<Rightarrow> Some t
      | None \<Rightarrow>
          if uid \<notin> set (users w) \<or> bid \<notin> set (map b_id (books w))
          then Some (JsError ''insert or update on table users_books violates foreign key constraint'')
          else None)"
| "refusal w (DbUpdate aid rating started finished notes) = validateRow rating notes"
| "refusal w ev = None"

definition callFails :: "env \<Rightarrow> world \<Rightarrow> event \<Rightarrow> thrown option" where
  "callFails env w ev =
     (case ev of
        ProviderFetch link \<Rightarrow>
          (case getFromBookQuickLink env link of Inl t \<Rightarrow> Some t | Inr d \<Rightarrow> None)
      | _ \<Rightarrow> (case dbFault env ev of Some t \<Rightarrow> Some t | None \<Rightarrow> refusal w ev))"

text \<open>
  What one turn makes of a task (the world plays no part in it), and the number of turns
  a task may still take.
\<close>

fun advance :: "env \<Rightarrow> task \<Rightarrow> task" where
  "advance env (Settled x) = Settled x"
| "advance env (AwaitFetch r b (Inl t)) = Settled (Inl t)"
| "advance env (AwaitFetch r b (Inr d)) =
     AwaitUpdate
       (case dbFault env (DbUpdateBook (b_id b) d) of
          Some t \<Rightarrow> Inl t
        | None \<Rightarrow> Inr (entryObject r (b\<lparr>bookDetails := Some d\<rparr>) (Some d)))"
| "advance env (AwaitUpdate x) = Settled x"

fun turnsLeft :: "task \<Rightarrow> nat" where
  "turnsLeft (Settled x) = 0"
| "turnsLeft (AwaitUpdate x) = 1"
| "turnsLeft (AwaitFetch r b x) = 2"

definition advanceAt :: "env \<Rightarrow> task list \<Rightarrow> nat \<Rightarrow> task list" where
  "advanceAt env ts i = (if i < length ts then ts[i := advance env (ts ! i)] else ts)"

text \<open>
  The write a suspended task will make when it is resumed, and the key of the book it
  will write to.
\<close>

fun pendingWrite :: "task \<Rightarrow> event list" where
  "pendingWrite (AwaitFetch r b (Inr d)) = [DbUpdateBook (b_id b) d]"
| "pendingWrite t = []"

fun pendingId :: "task \<Rightarrow> int set" where
  "pendingId (AwaitFetch r b (Inr d)) = {b_id b}"
| "pendingId t = {}"

text \<open>
  The states a task goes through for an association whose book is a row of the store,
  when the provider answers and the update succeeds.
\<close>

definition okTask :: "env \<Rightarrow> Book list \<Rightarrow> UsersBooks \<times> Book option \<Rightarrow> task \<Rightarrow> bool" where
  "okTask env bs e t =
     (\<exists>r b. e = (r, Some b) \<and> b \<in> set bs \<and>
        (if cacheStale (bookDetails b)
         then \<exists>d. getFromBookQuickLink env (quickLink b) = Inr d \<and>
                (t = AwaitFetch r b (Inr d) \<or> t = AwaitUpdate (Inr (entryView env e))
                 \<or> t = Settled (Inr (entryView env e)))
         else t = Settled (Inr (entryView env e))))"

text \<open>
  The event loop while no callback has failed: every task is in one of its expected
  states, no rejection has been seen, the books written so far carry the fetched
  metadata, and the writes made so far together with those still to come are the
  writes \<open>W\<close> of the stale books, whose keys are \<open>S\<close>.
\<close>

definition okLoop ::
  "env \<Rightarrow> Book list \<Rightarrow> (UsersBooks \<times> Book option) list \<Rightarrow> world \<Rightarrow> event multiset \<Rightarrow> int set
     \<Rightarrow> loop \<Rightarrow> bool" where
  "okLoop env bs es w1 W S s =
     (list_all2 (okTask env bs) es (tasks s) \<and> rejection s = None \<and>
      (\<exists>U us. wld s = w1\<lparr>books := map (\<lambda>x. if b_id x \<in> U then refreshed env x else x) bs,
                            trace := trace w1 @ us\<rparr>
             \<and> U \<union> \<Union>(pendingId ` set (tasks s)) = S
             \<and> mset us + mset (concat (map pendingWrite (tasks s))) = W))"

text \<open>
  A task that will reject, or has. The event loop whatever the collaborators do: the
  rejection kept is the one of a callback that read a \<open>null\<close> book (if there is one:
  \<open>nb\<close>) or the failure of a call made since the operation began (the trace had \<open>n\<close>
  calls then); a rejected task means a rejection is kept; a task that will reject does
  so with the failure of such a call; and if such a call has failed then some task
  rejects.
\<close>

fun doomed :: "task \<Rightarrow> bool" where
  "doomed (Settled (Inl t)) = True"
| "doomed (AwaitFetch r b (Inl t)) = True"
| "doomed (AwaitUpdate (Inl t)) = True"
| "doomed t = False"

fun failure :: "task \<Rightarrow> thrown option" where
  "failure (AwaitFetch r b (Inl t)) = Some t"
| "failure (AwaitUpdate (Inl t)) = Some t"
| "failure t = None"

definition failLoop :: "env \<Rightarrow> world \<Rightarrow> nat \<Rightarrow> bool \<Rightarrow> loop \<Rightarrow> bool" where
  "failLoop env w n nb s =
     (n \<le> length (trace (wld s))
      \<and> (\<forall>t. rejection s = Some t \<longrightarrow>
             t = nullBookError \<and> nb
             \<or> (\<exists>ev \<in> set (drop n (trace (wld s))). callFails env w ev = Some t))
      \<and> (\<forall>x. Settled (Inl x) \<in> set (tasks s) \<longrightarrow> rejection s \<noteq> None)
      \<and> (\<forall>k \<in> set (tasks s). \<forall>t. failure k = Some t \<longrightarrow>
             (\<exists>ev \<in> set (drop n (trace (wld s))). callFails env w ev = Some t))
      \<and> ((\<exists>ev \<in> set (drop n (trace (wld s))). callFails env w ev \<noteq> None) \<longrightarrow>
             (\<exists>k \<in> set (tasks s). doomed k)))"

section \<open>Example worlds\<close>

text \<open>
  A provider that answers every link with a titled volume, a store that never fails;
  two users, one book whose cache is empty, and one association of user 1.
\<close>

definition dune :: GoogleBooksApiResponse where
  "dune = [(''kind'', JStr ''books#volume''),
           (''volumeInfo'', JObj [(''title'', JStr ''Dune''), (''pageCount'', JNum 412)])]"

definition env0 :: env where
  "env0 = \<lparr>getFromBookQuickLink = (\<lambda>link. Inr dune), dbFault = (\<lambda>ev. None)\<rparr>"

text \<open>A provider that is down.\<close>

definition envDown :: env where
  "envDown = \<lparr>getFromBookQuickLink = (\<lambda>link. Inl (JsError ''connect ECONNREFUSED 10.0.0.7:443'')),
              dbFault = (\<lambda>ev. None)\<rparr>"

text \<open>A store whose every call fails.\<close>

definition envStoreDown :: env where
  "envStoreDown = \<lparr>getFromBookQuickLink = (\<lambda>link. Inr dune),
                   dbFault = (\<lambda>ev. Some (JsError ''Connection terminated unexpectedly''))\<rparr>"

text \<open>A store that fails at one call only, with a given value.\<close>

definition failingAt :: "event \<Rightarrow> thrown \<Rightarrow> env" where
  "failingAt ev t = \<lparr>getFromBookQuickLink = (\<lambda>link. Inr dune),
                     dbFault = (\<lambda>e. if e = ev then Some t else None)\<rparr>"

definition book5 :: Book where
  "book5 = \<lparr>b_id = 5, quickLink = ''volumes/5'', bookDetails = None\<rparr>"

definition world0 :: world where
  "world0 = \<lparr>users = [1, 2], books = [book5], usersBooks = [], nextId = 1, trace = []\<rparr>"

definition row1 :: UsersBooks where
  "row1 = \<lparr>ub_id = 1, userId = 1, bookId = 5, userRating = Some 8, dateStarted = Some 100,
           dateFinished = Some 200, userNotes = None, importBook = False\<rparr>"

definition world1 :: world where
  "world1 = \<lparr>users = [1, 2], books = [book5], usersBooks = [row1], nextId = 2, trace = []\<rparr>"

text \<open>A second book, whose cache holds a titled volume, and an association of user 1 with it.\<close>

definition emma :: GoogleBooksApiResponse where
  "emma = [(''volumeInfo'', JObj [(''title'', JStr ''Emma'')])]"

definition book6 :: Book where
  "book6 = \<lparr>b_id = 6, quickLink = ''volumes/6'', bookDetails = Some emma\<rparr>"

definition row2 :: UsersBooks where
  "row2 = \<lparr>ub_id = 2, userId = 1, bookId = 6, userRating = None, dateStarted = None,
           dateFinished = None, userNotes = Some ''to read'', importBook = True\<rparr>"

definition world2 :: world where
  "world2 = \<lparr>users = [1, 2], books = [book5, book6], usersBooks = [row1, row2], nextId = 3,
             trace = []\<rparr>"

text \<open>
  A third book, whose cached blob has no title, with an association of user 1: the user
  then has two books with a stale cache.
\<close>

definition book7 :: Book where
  "book7 = \<lparr>b_id = 7, quickLink = ''volumes/7'',
            bookDetails = Some [(''volumeInfo'', JObj [(''pageCount'', JNum 96)])]\<rparr>"

definition row3 :: UsersBooks where
  "row3 = \<lparr>ub_id = 3, userId = 1, bookId = 7, userRating = Some 4, dateStarted = None,
           dateFinished = None, userNotes = None, importBook = False\<rparr>"

definition world3 :: world where
  "world3 = \<lparr>users = [1, 2], books = [book5, book6, book7], usersBooks = [row1, row2, row3],
             nextId = 4, trace = []\<rparr>"

section \<open>Properties\<close>

lemmas io_defs = ret_def throw_def andThen_def tryCatch_def dbCall_def rethrow_def Let_def

lemma find_Some_b_id: "find (\<lambda>b. b_id b = bid) bs = Some b \<Longrightarrow> bid \<in> b_id ` set bs"
  by (auto simp: find_Some_iff)

lemma map_of_spread: "map_of (spread a b) = map_of a ++ map_of b"
  by (simp add: spread_def merge_conv')

lemma book_of_view:
  "map_of (spread (usersBooksToJSON r b) [(''book'', v)]) ''book'' = Some v"
  by (simp add: map_of_spread)

lemma userEntries_trace [simp]: "userEntries (w\<lparr>trace := tr\<rparr>) uid = userEntries w uid"
  by (simp add: userEntries_def joinBook_def)

lemma b_id_refreshed [simp]: "b_id (refreshed env b) = b_id b"
  by (simp add: refreshed_def withFetched_def split: sum.splits)

lemma staleIds_Nil [simp]: "staleIds [] = {}"
  by (simp add: staleIds_def)

lemma staleIds_Cons [simp]:
  "staleIds ((r, Some b) # es)
     = (if cacheStale (bookDetails b) then insert (b_id b) (staleIds es) else staleIds es)"
  by (auto simp: staleIds_def)

lemma set_joinedBooks: "set (joinedBooks es) = {b. \<exists>r. (r, Some b) \<in> set es}"
  by (induction es rule: joinedBooks.induct) auto

lemma find_by_id_mem:
  "bid \<in> b_id ` set bs \<Longrightarrow> \<exists>b. find (\<lambda>b. b_id b = bid) bs = Some b \<and> b \<in> set bs"
  by (induction bs) auto

lemma userEntries_joined:
  assumes fk: "\<forall>r \<in> set (usersBooks w). userId r = uid \<longrightarrow> bookId r \<in> b_id ` set (books w)"
  shows "\<forall>e \<in> set (userEntries w uid). \<exists>b. snd e = Some b \<and> b \<in> set (books w)"
  using fk find_by_id_mem [of _ "books w"]
  by (fastforce simp: userEntries_def joinBook_def)

lemma valid_not_stale: "validCachedMetadata bd \<Longrightarrow> \<not> cacheStale bd"
  by (auto simp: validCachedMetadata_def cacheStale_def nestedTitle_def optProp_def
      split: option.splits json.splits)

lemma stale_iff_invalid: "titleWellTyped bd \<Longrightarrow> cacheStale bd \<longleftrightarrow> \<not> validCachedMetadata bd"
  by (auto simp: titleWellTyped_def validCachedMetadata_def cacheStale_def nestedTitle_def
      optProp_def split: option.splits json.splits)

lemma find_map_same_key:
  assumes "\<And>x. b_id (g x) = b_id x"
  shows "find (\<lambda>b. b_id b = k) (map g bs) = map_option g (find (\<lambda>b. b_id b = k) bs)"
  using assms by (induction bs) simp_all

lemma joinedBooks_map:
  "joinedBooks (map (\<lambda>e. (fst e, map_option g (snd e))) es) = map g (joinedBooks es)"
  by (induction es rule: joinedBooks.induct) simp_all

lemma userBooks_after:
  assumes "\<And>x. b_id (g x) = b_id x"
  shows "userBooks (w\<lparr>books := map g (books w), trace := tr\<rparr>) uid = map g (userBooks w uid)"
proof -
  have "userEntries (w\<lparr>books := map g (books w), trace := tr\<rparr>) uid
      = map (\<lambda>e. (fst e, map_option g (snd e))) (userEntries w uid)"
    by (simp add: userEntries_def joinBook_def find_map_same_key [of g, OF assms] comp_def)
  then show ?thesis
    by (simp add: userBooks_def joinedBooks_map)
qed

lemma userBooks_in_store:
  assumes fk: "\<forall>r \<in> set (usersBooks w). userId r = uid \<longrightarrow> bookId r \<in> b_id ` set (books w)"
  shows "set (userBooks w uid) \<subseteq> set (books w)"
proof
  fix b assume "b \<in> set (userBooks w uid)"
  then obtain r where "(r, Some b) \<in> set (userEntries w uid)"
    by (auto simp: userBooks_def set_joinedBooks)
  then show "b \<in> set (books w)"
    using userEntries_joined [OF fk] by fastforce
qed

lemma find_snoc:
  "find P (xs @ [y]) = (case find P xs of None \<Rightarrow> (if P y then Some y else None) | Some x \<Rightarrow> Some x)"
  by (induction xs) simp_all

lemma find_key: "find (\<lambda>r. ub_id r = k) xs = Some r \<Longrightarrow> ub_id r = k"
  by (auto simp: find_Some_iff)

lemma addBookToUser_first:
  assumes faults: "dbFault env = (\<lambda>ev. None)"
      and noprior: "find (\<lambda>r. userId r = uid \<and> bookId r = bid) (usersBooks w) = None"
      and first: "addBookToUser env now uid bid rating started finished notes imp w = (Inr res1, w1)"
  shows "\<exists>found bk row.
           res1 = Some (found, bk) \<and> ub_id found = ub_id row
         \<and> userId row = uid \<and> bookId row = bid
         \<and> usersBooks w1 = usersBooks w @ [row]
         \<and> books w1 = books w
         \<and> find (\<lambda>b. b_id b = bid) (books w) \<noteq> None"
proof -
  let ?row = "\<lparr>ub_id = nextId w, userId = uid, bookId = bid, userRating = ratingOrNull rating,
               dateStarted = started, dateFinished = finished, userNotes = notesOrNull notes,
               importBook = imp\<rparr>"
  have pass: "\<not> ratingAbove10 rating" "\<not> startedAfterFinished started finished"
    "\<not> startedInFuture now started"
    using first by (auto simp: addBookToUser_def throw_def split: if_splits)
  have book: "find (\<lambda>b. b_id b = bid) (books w) \<noteq> None"
    using first pass faults
    by (auto simp: addBookToUser_def findBookByPk_def io_defs split: if_splits)
  have created: "createUsersBooks env uid bid (ratingOrNull rating) started finished (notesOrNull notes) imp
        (w\<lparr>trace := trace w @ [DbFindBookByPk bid, DbFindOneUserBook uid bid]\<rparr>)
      = (Inr ?row,
         w\<lparr>trace := trace w @ [DbFindBookByPk bid, DbFindOneUserBook uid bid,
               DbCreate uid bid (ratingOrNull rating) started finished (notesOrNull notes) imp],
           usersBooks := usersBooks w @ [?row], nextId := nextId w + 1\<rparr>)"
    using first pass faults noprior book
    by (auto simp: addBookToUser_def findBookByPk_def findOneUserBook_def createUsersBooks_def
        io_defs split: if_splits option.splits)
  have lookup: "find (\<lambda>r. ub_id r = nextId w) (usersBooks w @ [?row]) \<noteq> None"
    by (simp add: find_snoc split: option.splits)
  then obtain found where found: "find (\<lambda>r. ub_id r = nextId w) (usersBooks w @ [?row]) = Some found"
    by blast
  have res: "res1 = Some (found, find (\<lambda>b. b_id b = bookId found) (books w))
      \<and> usersBooks w1 = usersBooks w @ [?row] \<and> books w1 = books w"
    using first pass faults noprior book created found
    by (auto simp: addBookToUser_def findBookByPk_def findOneUserBook_def findOneId_def
        joinBook_def io_defs)
  have "ub_id found = ub_id ?row"
    using find_key [OF found] by simp
  then show ?thesis
    using res book by (intro exI [of _ found] exI [of _ "find (\<lambda>b. b_id b = bookId found) (books w)"]
        exI [of _ ?row]) simp
qed

lemma addBookToUser_existing:
  assumes faults: "dbFault env = (\<lambda>ev. None)"
      and book: "find (\<lambda>b. b_id b = bid) (books w) \<noteq> None"
      and existing: "find (\<lambda>r. userId r = uid \<and> bookId r = bid) (usersBooks w) = Some row"
      and pass: "\<not> ratingAbove10 rating" "\<not> startedAfterFinished started finished"
        "\<not> startedInFuture now started"
  shows "addBookToUser env now uid bid rating started finished notes imp w
       = (Inr (Some (row, None)),
          w\<lparr>trace := trace w @ [DbFindBookByPk bid, DbFindOneUserBook uid bid]\<rparr>)"
  using assms
  by (auto simp: addBookToUser_def findBookByPk_def findOneUserBook_def io_defs)

lemma addBookToUser_existing_rows:
  assumes existing: "find (\<lambda>r. userId r = uid \<and> bookId r = bid) (usersBooks w) = Some row"
  shows "usersBooks (snd (addBookToUser env now uid bid rating started finished notes imp w))
       = usersBooks w"
  using assms
  by (auto simp: addBookToUser_def findBookByPk_def findOneUserBook_def io_defs
      split: option.splits)

lemma keys_spread: "fst ` set (spread a b) = fst ` set a \<union> fst ` set b"
  by (simp add: spread_def dom_merge)

lemma entryView_shape:
  "\<exists>bk. map_of (entryView env (r, Some b)) ''book'' = Some (JObj bk)
      \<and> map_of bk ''bookDetails'' = Some (jsonOpt JObj (bookDetails (refreshed env b)))
      \<and> fst ` set bk = {''id'', ''quickLink'', ''bookDetails''}"
proof -
  let ?b = "refreshed env b"
  let ?bk = "spread (bookToJSON ?b) [(''bookDetails'', jsonOpt JObj (bookDetails ?b))]"
  have "map_of (entryView env (r, Some b)) ''book'' = Some (JObj ?bk)"
    by (simp add: entryView_def entryObject_def book_of_view)
  moreover have "map_of ?bk ''bookDetails'' = Some (jsonOpt JObj (bookDetails ?b))"
    by (simp add: map_of_spread)
  moreover have "fst ` set ?bk = {''id'', ''quickLink'', ''bookDetails''}"
    by (auto simp: keys_spread bookToJSON_def)
  ultimately show ?thesis
    by blast
qed

lemma resume_task: "fst (resumeCallback env t w) = advance env t"
  by (induction env t w rule: resumeCallback.induct)
    (simp_all add: updateBookDetails_def dbCall_def Let_def split: option.splits)

lemma tasks_resumeAt: "tasks (resumeAt env i s) = advanceAt env (tasks s) i"
  using resume_task [of env "tasks s ! i" "wld s"]
  by (simp add: resumeAt_def advanceAt_def case_prod_beta)

lemma tasks_runSchedule: "tasks (runSchedule env sched s) = foldl (advanceAt env) (tasks s) sched"
  by (induction sched arbitrary: s) (simp_all add: tasks_resumeAt)

lemma turnsLeft_advance: "turnsLeft (advance env t) \<le> turnsLeft t - 1"
  by (induction env t rule: advance.induct) simp_all

lemma length_advanceAt [simp]: "length (advanceAt env ts i) = length ts"
  by (simp add: advanceAt_def)

lemma length_foldl_advanceAt [simp]: "length (foldl (advanceAt env) ts is) = length ts"
  by (induction "is" arbitrary: ts) simp_all

lemma turnsLeft_advanceAt:
  "j < length ts \<Longrightarrow> turnsLeft (advanceAt env ts i ! j) \<le> turnsLeft (ts ! j)"
  using turnsLeft_advance [of env "ts ! j"]
  by (cases "i = j") (auto simp: advanceAt_def)

lemma turnsLeft_foldl:
  "j < length ts \<Longrightarrow> turnsLeft (foldl (advanceAt env) ts is ! j) \<le> turnsLeft (ts ! j)"
proof (induction "is" arbitrary: ts)
  case Nil
  then show ?case by simp
next
  case (Cons i "is")
  have "turnsLeft (foldl (advanceAt env) (advanceAt env ts i) is ! j)
      \<le> turnsLeft (advanceAt env ts i ! j)"
    using Cons.IH [of "advanceAt env ts i"] Cons.prems by simp
  also have "\<dots> \<le> turnsLeft (ts ! j)"
    using turnsLeft_advanceAt Cons.prems by blast
  finally show ?case by simp
qed

lemma turnsLeft_pass:
  "k \<le> length ts \<Longrightarrow> j < k
    \<Longrightarrow> turnsLeft (foldl (advanceAt env) ts [0..<k] ! j) \<le> turnsLeft (ts ! j) - 1"
proof (induction k)
  case 0
  then show ?case by simp
next
  case (Suc k)
  let ?ts = "foldl (advanceAt env) ts [0..<k]"
  have len: "length ?ts = length ts" by simp
  have step: "foldl (advanceAt env) ts [0..<Suc k] = advanceAt env ?ts k"
    by simp
  show ?case
  proof (cases "j = k")
    case True
    have "turnsLeft (advanceAt env ?ts k ! k) \<le> turnsLeft (?ts ! k) - 1"
      using Suc.prems turnsLeft_advance [of env "?ts ! k"] by (simp add: advanceAt_def)
    moreover have "turnsLeft (?ts ! k) \<le> turnsLeft (ts ! k)"
      using turnsLeft_foldl [of k ts env "[0..<k]"] Suc.prems by simp
    ultimately show ?thesis
      unfolding step True by linarith
  next
    case False
    then have j: "j < k" using Suc.prems by simp
    have "advanceAt env ?ts k ! j = ?ts ! j"
      using False by (simp add: advanceAt_def)
    then show ?thesis
      unfolding step using Suc.IH j Suc.prems by simp
  qed
qed

lemma turnsLeft_le_2: "turnsLeft t \<le> 2"
  by (cases t) simp_all

lemma all_settled:
  assumes "j < length ts"
  shows "turnsLeft (foldl (advanceAt env) ts (sched @ [0..<length ts] @ [0..<length ts]) ! j) = 0"
proof -
  let ?a = "foldl (advanceAt env) ts sched"
  let ?b = "foldl (advanceAt env) ?a [0..<length ts]"
  let ?c = "foldl (advanceAt env) ?b [0..<length ts]"
  have "turnsLeft (?b ! j) \<le> turnsLeft (?a ! j) - 1"
    using turnsLeft_pass [of "length ts" ?a j env] assms by simp
  then have b: "turnsLeft (?b ! j) \<le> 1"
    using turnsLeft_le_2 [of "?a ! j"] by linarith
  have "turnsLeft (?c ! j) \<le> turnsLeft (?b ! j) - 1"
    using turnsLeft_pass [of "length ts" ?b j env] assms by simp
  then have "turnsLeft (?c ! j) = 0"
    using b by linarith
  then show ?thesis
    by simp
qed

lemma turnsLeft_0: "turnsLeft t = 0 \<Longrightarrow> \<exists>x. t = Settled x"
  by (cases t) simp_all

lemma runSchedule_invariant:
  assumes "P s" and "\<And>s i. P s \<Longrightarrow> i < length (tasks s) \<Longrightarrow> P (resumeAt env i s)"
  shows "P (runSchedule env sched s)"
  using assms(1)
proof (induction sched arbitrary: s)
  case Nil
  then show ?case by simp
next
  case (Cons i sched)
  have "P (resumeAt env i s)"
  proof (cases "i < length (tasks s)")
    case True
    then show ?thesis using assms(2) Cons.prems by blast
  next
    case False
    then show ?thesis using Cons.prems by (simp add: resumeAt_def)
  qed
  then show ?case
    using Cons.IH by simp
qed

lemma mset_concat_update:
  "i < length ts \<Longrightarrow>
     mset (concat (map f (ts[i := y]))) + mset (f (ts ! i)) = mset (concat (map f ts)) + mset (f y)"
proof (induction ts arbitrary: i)
  case Nil
  then show ?case by simp
next
  case (Cons t ts)
  then show ?case by (cases i) (simp_all add: ac_simps)
qed

lemma Union_update:
  "i < length ts \<Longrightarrow> \<Union>(g ` set (ts[i := y])) \<union> g (ts ! i) = \<Union>(g ` set ts) \<union> g y"
proof (induction ts arbitrary: i)
  case Nil
  then show ?case by simp
next
  case (Cons t ts)
  show ?case
  proof (cases i)
    case 0
    then show ?thesis by auto
  next
    case (Suc j)
    then have "\<Union>(g ` set (ts[j := y])) \<union> g (ts ! j) = \<Union>(g ` set ts) \<union> g y"
      using Cons by simp
    then show ?thesis
      using Suc by auto
  qed
qed

lemma refresh_step:
  assumes pk: "distinct (map b_id bs0)" and mem: "b \<in> set bs0"
      and stale: "cacheStale (bookDetails b)"
      and d: "getFromBookQuickLink env (quickLink b) = Inr d"
  shows "map (\<lambda>x. if b_id x = b_id b then x\<lparr>bookDetails := Some d\<rparr> else x)
           (map (\<lambda>x. if b_id x \<in> A then refreshed env x else x) bs0)
       = map (\<lambda>x. if b_id x \<in> insert (b_id b) A then refreshed env x else x) bs0"
proof -
  have same: "x = b" if "x \<in> set bs0" "b_id x = b_id b" for x
    using pk mem that by (meson distinct_map inj_onD)
  have r: "refreshed env b = b\<lparr>bookDetails := Some d\<rparr>"
    using stale d by (simp add: refreshed_def withFetched_def)
  have "(if b_id (if b_id x \<in> A then refreshed env x else x) = b_id b
         then (if b_id x \<in> A then refreshed env x else x)\<lparr>bookDetails := Some d\<rparr>
         else (if b_id x \<in> A then refreshed env x else x))
      = (if b_id x \<in> insert (b_id b) A then refreshed env x else x)"
    if x: "x \<in> set bs0" for x
  proof (cases "b_id x = b_id b")
    case True
    then have "x = b" using same x by blast
    then show ?thesis using r by simp
  next
    case False
    then show ?thesis by simp
  qed
  then show ?thesis
    by (simp add: comp_def)
qed

lemma entryView_stale:
  "cacheStale (bookDetails b) \<Longrightarrow> getFromBookQuickLink env (quickLink b) = Inr d
    \<Longrightarrow> entryView env (r, Some b) = entryObject r (b\<lparr>bookDetails := Some d\<rparr>) (Some d)"
  by (simp add: entryView_def refreshed_def withFetched_def)

lemma okLoop_step:
  assumes upd: "\<And>k d. dbFault env (DbUpdateBook k d) = None"
      and pk: "distinct (map b_id bs)"
      and inv: "okLoop env bs es w1 W S s"
      and i: "i < length (tasks s)"
  shows "okLoop env bs es w1 W S (resumeAt env i s)"
proof -
  let ?ts = "tasks s"
  let ?e = "es ! i"
  from inv obtain U us where
        all: "list_all2 (okTask env bs) es ?ts"
    and rej: "rejection s = None"
    and w: "wld s = w1\<lparr>books := map (\<lambda>x. if b_id x \<in> U then refreshed env x else x) bs,
                            trace := trace w1 @ us\<rparr>"
    and ids: "U \<union> \<Union>(pendingId ` set ?ts) = S"
    and writes: "mset us + mset (concat (map pendingWrite ?ts)) = W"
    unfolding okLoop_def by blast
  have ok: "okTask env bs ?e (?ts ! i)"
    using all i by (simp add: list_all2_conv_all_nth)
  then obtain r b where e: "?e = (r, Some b)" and mem: "b \<in> set bs"
    unfolding okTask_def by blast
  consider
      (fetch) d where "cacheStale (bookDetails b)" "getFromBookQuickLink env (quickLink b) = Inr d"
        "?ts ! i = AwaitFetch r b (Inr d)"
    | (update) "?ts ! i = AwaitUpdate (Inr (entryView env ?e))"
    | (settled) "?ts ! i = Settled (Inr (entryView env ?e))"
    using ok e unfolding okTask_def by (auto split: if_splits)
  then show ?thesis
  proof cases
    case fetch
    let ?t = "AwaitUpdate (Inr (entryView env ?e))"
    let ?ev = "DbUpdateBook (b_id b) d"
    let ?U = "insert (b_id b) U"
    have view: "entryView env ?e = entryObject r (b\<lparr>bookDetails := Some d\<rparr>) (Some d)"
      unfolding e using entryView_stale [OF fetch(1,2)] .
    have books: "map (\<lambda>x. if b_id x = b_id b then x\<lparr>bookDetails := Some d\<rparr> else x)
           (map (\<lambda>x. if b_id x \<in> U then refreshed env x else x) bs)
       = map (\<lambda>x. if b_id x \<in> ?U then refreshed env x else x) bs"
      using refresh_step [OF pk mem fetch(1,2)] .
    have next_s: "resumeAt env i s =
        \<lparr>tasks = ?ts[i := ?t], rejection = None,
         wld = w1\<lparr>books := map (\<lambda>x. if b_id x \<in> ?U then refreshed env x else x) bs,
                  trace := trace w1 @ us @ [?ev]\<rparr>\<rparr>"
      using i fetch(3) rej w upd books
      by (simp add: resumeAt_def updateBookDetails_def dbCall_def Let_def view)
    have okt: "okTask env bs ?e ?t"
      using e mem fetch(1,2) by (simp add: okTask_def)
    have all': "list_all2 (okTask env bs) es (?ts[i := ?t])"
      using list_all2_update_cong [OF all okt, of i] by simp
    have "\<Union>(pendingId ` set (?ts[i := ?t])) \<union> pendingId (?ts ! i)
        = \<Union>(pendingId ` set ?ts) \<union> pendingId ?t"
      using Union_update [OF i] .
    then have ids': "?U \<union> \<Union>(pendingId ` set (?ts[i := ?t])) = S"
      using ids fetch(3) by auto
    have "mset (concat (map pendingWrite (?ts[i := ?t]))) + mset (pendingWrite (?ts ! i))
        = mset (concat (map pendingWrite ?ts)) + mset (pendingWrite ?t)"
      using mset_concat_update [OF i] .
    then have step: "add_mset ?ev (mset (concat (map pendingWrite (?ts[i := ?t]))))
        = mset (concat (map pendingWrite ?ts))"
      using fetch(3) by simp
    have "mset (us @ [?ev]) + mset (concat (map pendingWrite (?ts[i := ?t])))
        = mset us + add_mset ?ev (mset (concat (map pendingWrite (?ts[i := ?t]))))"
      by simp
    also have "\<dots> = mset us + mset (concat (map pendingWrite ?ts))"
      using step by simp
    finally have writes': "mset (us @ [?ev]) + mset (concat (map pendingWrite (?ts[i := ?t]))) = W"
      using writes by simp
    show ?thesis
      unfolding okLoop_def next_s using all' ids' writes'
      by (intro conjI exI [of _ ?U] exI [of _ "us @ [?ev]"]) simp_all
  next
    case update
    let ?t = "Settled (Inr (entryView env ?e))"
    have next_s: "resumeAt env i s = \<lparr>tasks = ?ts[i := ?t], rejection = None, wld = wld s\<rparr>"
      using i update rej by (simp add: resumeAt_def)
    have okt: "okTask env bs ?e ?t"
      using ok update unfolding okTask_def by (auto split: if_splits)
    have all': "list_all2 (okTask env bs) es (?ts[i := ?t])"
      using list_all2_update_cong [OF all okt, of i] by simp
    have "\<Union>(pendingId ` set (?ts[i := ?t])) \<union> pendingId (?ts ! i)
        = \<Union>(pendingId ` set ?ts) \<union> pendingId ?t"
      using Union_update [OF i] .
    then have ids': "U \<union> \<Union>(pendingId ` set (?ts[i := ?t])) = S"
      using ids update by simp
    have "mset (concat (map pendingWrite (?ts[i := ?t]))) + mset (pendingWrite (?ts ! i))
        = mset (concat (map pendingWrite ?ts)) + mset (pendingWrite ?t)"
      using mset_concat_update [OF i] .
    then have writes': "mset us + mset (concat (map pendingWrite (?ts[i := ?t]))) = W"
      using writes update by simp
    show ?thesis
      unfolding okLoop_def next_s using all' ids' writes' w
      by (intro conjI exI [of _ U] exI [of _ us]) simp_all
  next
    case settled
    have "resumeAt env i s = \<lparr>tasks = ?ts[i := ?ts ! i], rejection = None, wld = wld s\<rparr>"
      using i settled rej by (simp add: resumeAt_def)
    then have "resumeAt env i s = s"
      using rej by simp
    then show ?thesis
      using inv by simp
  qed
qed

lemma okTask_not_rejected: "okTask env bs e t \<Longrightarrow> t \<noteq> Settled (Inl x)"
  by (auto simp: okTask_def split: if_splits)

lemma okTasks_firstRejection:
  "list_all2 (okTask env bs) es ts \<Longrightarrow> firstRejection ts = None"
proof (induction rule: list_all2_induct)
  case Nil
  then show ?case by simp
next
  case (Cons e es t ts)
  show ?case
  proof (cases t)
    case (Settled x)
    then show ?thesis
      using Cons okTask_not_rejected [of env bs e t] by (cases x) auto
  qed (use Cons in auto)
qed

lemma okTasks_resolved:
  "list_all2 (okTask env bs) es ts \<Longrightarrow> \<forall>t \<in> set ts. turnsLeft t = 0
    \<Longrightarrow> resolved ts = map (entryView env) es"
proof (induction rule: list_all2_induct)
  case Nil
  then show ?case by simp
next
  case (Cons e es t ts)
  have "t = Settled (Inr (entryView env e))"
    using Cons.hyps(1) Cons.prems by (auto simp: okTask_def split: if_splits)
  then show ?case
    using Cons by simp
qed

lemma settled_nothing_pending:
  "\<forall>t \<in> set ts. turnsLeft t = 0
    \<Longrightarrow> \<Union>(pendingId ` set ts) = {} \<and> concat (map pendingWrite ts) = []"
proof (induction ts)
  case Nil
  then show ?case by simp
next
  case (Cons t ts)
  then obtain x where "t = Settled x"
    using turnsLeft_0 [of t] by auto
  then show ?case
    using Cons by simp
qed

lemma startAll_ok:
  "\<forall>e \<in> set es. \<exists>b. snd e = Some b \<and> b \<in> set bs
        \<and> (cacheStale (bookDetails b) \<longrightarrow> (\<exists>d. getFromBookQuickLink env (quickLink b) = Inr d))
    \<Longrightarrow> \<exists>ts. startAll env es w =
               (ts, w\<lparr>trace := trace w @ map fetchCall
                                           (filter (\<lambda>b. cacheStale (bookDetails b)) (joinedBooks es))\<rparr>)
           \<and> list_all2 (okTask env bs) es ts
           \<and> \<Union>(pendingId ` set ts) = staleIds es
           \<and> mset (concat (map pendingWrite ts))
               = mset (concat (map (writeCalls env)
                                 (filter (\<lambda>b. cacheStale (bookDetails b)) (joinedBooks es))))"
proof (induction es arbitrary: w)
  case Nil
  then show ?case by simp
next
  case (Cons e es)
  obtain r b where e: "e = (r, Some b)" and mem: "b \<in> set bs"
    and ok: "cacheStale (bookDetails b) \<Longrightarrow> \<exists>d. getFromBookQuickLink env (quickLink b) = Inr d"
    using Cons.prems by (cases e) auto
  have rest: "\<forall>e \<in> set es. \<exists>b. snd e = Some b \<and> b \<in> set bs
        \<and> (cacheStale (bookDetails b) \<longrightarrow> (\<exists>d. getFromBookQuickLink env (quickLink b) = Inr d))"
    using Cons.prems by simp
  show ?case
  proof (cases "cacheStale (bookDetails b)")
    case True
    then obtain d where d: "getFromBookQuickLink env (quickLink b) = Inr d"
      using ok by blast
    let ?w = "w\<lparr>trace := trace w @ [fetchCall b]\<rparr>"
    have first: "startCallback env e w = (AwaitFetch r b (Inr d), ?w)"
      using True d by (simp add: e startCallback_def fetchDetails_def fetchCall_def)
    obtain ts where ts: "startAll env es ?w =
               (ts, ?w\<lparr>trace := trace ?w @ map fetchCall
                                           (filter (\<lambda>b. cacheStale (bookDetails b)) (joinedBooks es))\<rparr>)"
        "list_all2 (okTask env bs) es ts"
        "\<Union>(pendingId ` set ts) = staleIds es"
        "mset (concat (map pendingWrite ts))
               = mset (concat (map (writeCalls env)
                                 (filter (\<lambda>b. cacheStale (bookDetails b)) (joinedBooks es))))"
      using Cons.IH [OF rest, of ?w] by blast
    have okt: "okTask env bs e (AwaitFetch r b (Inr d))"
      using True d mem by (simp add: okTask_def e)
    have wc: "writeCalls env b = [DbUpdateBook (b_id b) d]"
      by (simp add: writeCalls_def d)
    show ?thesis
      using first ts okt True
      by (intro exI [of _ "AwaitFetch r b (Inr d) # ts"]) (simp add: e wc)
  next
    case False
    have first: "startCallback env e w = (Settled (Inr (entryView env e)), w)"
      using False by (simp add: e startCallback_def entryView_def refreshed_def)
    obtain ts where ts: "startAll env es w =
               (ts, w\<lparr>trace := trace w @ map fetchCall
                                           (filter (\<lambda>b. cacheStale (bookDetails b)) (joinedBooks es))\<rparr>)"
        "list_all2 (okTask env bs) es ts"
        "\<Union>(pendingId ` set ts) = staleIds es"
        "mset (concat (map pendingWrite ts))
               = mset (concat (map (writeCalls env)
                                 (filter (\<lambda>b. cacheStale (bookDetails b)) (joinedBooks es))))"
      using Cons.IH [OF rest, of w] by blast
    have okt: "okTask env bs e (Settled (Inr (entryView env e)))"
      using False mem by (simp add: okTask_def e)
    show ?thesis
      using first ts okt False
      by (intro exI [of _ "Settled (Inr (entryView env e)) # ts"]) (simp add: e)
  qed
qed

lemma all_tasks_settled:
  "\<forall>t \<in> set (tasks (runSchedule env (sched @ [0..<length (tasks s)] @ [0..<length (tasks s)]) s)).
     turnsLeft t = 0"
proof
  fix t
  let ?ts = "foldl (advanceAt env) (tasks s) (sched @ [0..<length (tasks s)] @ [0..<length (tasks s)])"
  assume "t \<in> set (tasks (runSchedule env (sched @ [0..<length (tasks s)] @ [0..<length (tasks s)]) s))"
  then have "t \<in> set ?ts"
    by (simp only: tasks_runSchedule)
  then obtain j where j: "j < length ?ts" "?ts ! j = t"
    by (meson in_set_conv_nth)
  then have "j < length (tasks s)"
    by (simp only: length_foldl_advanceAt)
  then have "turnsLeft (?ts ! j) = 0"
    by (rule all_settled)
  then show "turnsLeft t = 0"
    using j(2) by simp
qed

lemma promiseAllMap_ok:
  assumes upd: "\<And>k d. dbFault env (DbUpdateBook k d) = None"
      and pk: "distinct (map b_id (books w))"
      and entries: "\<forall>e \<in> set es. \<exists>b. snd e = Some b \<and> b \<in> set (books w)
        \<and> (cacheStale (bookDetails b) \<longrightarrow> (\<exists>d. getFromBookQuickLink env (quickLink b) = Inr d))"
  shows "\<exists>us. promiseAllMap env sched es w =
           (Inr (map (entryView env) es),
            w\<lparr>books := map (\<lambda>x. if b_id x \<in> staleIds es then refreshed env x else x) (books w),
              trace := trace w @ map fetchCall
                                   (filter (\<lambda>b. cacheStale (bookDetails b)) (joinedBooks es)) @ us\<rparr>)
         \<and> mset us = mset (concat (map (writeCalls env)
                                     (filter (\<lambda>b. cacheStale (bookDetails b)) (joinedBooks es))))"
proof -
  let ?fetches = "map fetchCall (filter (\<lambda>b. cacheStale (bookDetails b)) (joinedBooks es))"
  let ?W = "mset (concat (map (writeCalls env)
                            (filter (\<lambda>b. cacheStale (bookDetails b)) (joinedBooks es))))"
  let ?wa = "w\<lparr>trace := trace w @ ?fetches\<rparr>"
  obtain ts where ts: "startAll env es w = (ts, ?wa)"
      "list_all2 (okTask env (books w)) es ts"
      "\<Union>(pendingId ` set ts) = staleIds es"
      "mset (concat (map pendingWrite ts)) = ?W"
    using startAll_ok [OF entries, of w] by blast
  let ?init = "\<lparr>tasks = ts, rejection = firstRejection ts, wld = ?wa\<rparr>"
  let ?fin = "runSchedule env (sched @ [0..<length ts] @ [0..<length ts]) ?init"
  have "?wa = ?wa\<lparr>books := map (\<lambda>x. if b_id x \<in> {} then refreshed env x else x) (books w),
                   trace := trace ?wa @ []\<rparr>"
    by simp
  then have start: "okLoop env (books w) es ?wa ?W (staleIds es) ?init"
    unfolding okLoop_def using ts(2,3,4) okTasks_firstRejection [OF ts(2)]
    by (intro conjI exI [of _ "{}"] exI [of _ "[]"]) simp_all
  have final: "okLoop env (books w) es ?wa ?W (staleIds es) ?fin"
    using start okLoop_step [OF upd pk]
    by (rule runSchedule_invariant [where P = "okLoop env (books w) es ?wa ?W (staleIds es)"])
  have settled: "\<forall>t \<in> set (tasks ?fin). turnsLeft t = 0"
    using all_tasks_settled [of env sched ?init] by simp
  from final obtain U us where
        all: "list_all2 (okTask env (books w)) es (tasks ?fin)"
    and rej: "rejection ?fin = None"
    and wl: "wld ?fin = ?wa\<lparr>books := map (\<lambda>x. if b_id x \<in> U then refreshed env x else x) (books w),
                            trace := trace ?wa @ us\<rparr>"
    and ids: "U \<union> \<Union>(pendingId ` set (tasks ?fin)) = staleIds es"
    and writes: "mset us + mset (concat (map pendingWrite (tasks ?fin))) = ?W"
    unfolding okLoop_def by blast
  have U: "U = staleIds es" and us: "mset us = ?W"
    using ids writes settled_nothing_pending [OF settled] by simp_all
  have vals: "resolved (tasks ?fin) = map (entryView env) es"
    using okTasks_resolved [OF all settled] .
  have "promiseAllMap env sched es w =
           (Inr (map (entryView env) es),
            w\<lparr>books := map (\<lambda>x. if b_id x \<in> staleIds es then refreshed env x else x) (books w),
              trace := trace w @ ?fetches @ us\<rparr>)"
    using ts(1) rej vals wl U by (simp add: promiseAllMap_def Let_def)
  then show ?thesis
    using us by blast
qed

lemma getBooksForUser_run:
  assumes faults: "dbFault env = (\<lambda>ev. None)"
      and pk: "distinct (map b_id (books w))"
      and fk: "\<forall>r \<in> set (usersBooks w). userId r = uid \<longrightarrow> bookId r \<in> b_id ` set (books w)"
      and provider: "\<forall>b \<in> set (userBooks w uid). cacheStale (bookDetails b)
                       \<longrightarrow> (\<exists>d. getFromBookQuickLink env (quickLink b) = Inr d)"
  shows "\<exists>us. getBooksForUser env sched uid w =
           (Inr (map (entryView env) (userEntries w uid)),
            w\<lparr>books := map (\<lambda>x. if b_id x \<in> staleIds (userEntries w uid) then refreshed env x else x)
                          (books w),
              trace := trace w @ DbFindAll uid #
                       map fetchCall (filter (\<lambda>b. cacheStale (bookDetails b)) (userBooks w uid)) @ us\<rparr>)
         \<and> mset us = mset (concat (map (writeCalls env)
                                     (filter (\<lambda>b. cacheStale (bookDetails b)) (userBooks w uid))))"
proof -
  let ?wa = "w\<lparr>trace := trace w @ [DbFindAll uid]\<rparr>"
  let ?es = "userEntries w uid"
  have upd: "\<And>k d. dbFault env (DbUpdateBook k d) = None"
    by (simp add: faults)
  have entries: "\<forall>e \<in> set ?es. \<exists>b. snd e = Some b \<and> b \<in> set (books ?wa)
            \<and> (cacheStale (bookDetails b) \<longrightarrow> (\<exists>d. getFromBookQuickLink env (quickLink b) = Inr d))"
  proof
    fix e assume e: "e \<in> set ?es"
    then obtain b where b: "snd e = Some b" "b \<in> set (books w)"
      using userEntries_joined [OF fk] by blast
    then have "(fst e, Some b) \<in> set ?es"
      using e by (metis prod.collapse)
    then have "b \<in> set (userBooks w uid)"
      by (auto simp: userBooks_def set_joinedBooks)
    then show "\<exists>b. snd e = Some b \<and> b \<in> set (books ?wa)
            \<and> (cacheStale (bookDetails b) \<longrightarrow> (\<exists>d. getFromBookQuickLink env (quickLink b) = Inr d))"
      using b provider by auto
  qed
  have pk': "distinct (map b_id (books ?wa))"
    using pk by simp
  obtain us where us: "promiseAllMap env sched ?es ?wa =
           (Inr (map (entryView env) ?es),
            ?wa\<lparr>books := map (\<lambda>x. if b_id x \<in> staleIds ?es then refreshed env x else x) (books ?wa),
              trace := trace ?wa @ map fetchCall
                                   (filter (\<lambda>b. cacheStale (bookDetails b)) (joinedBooks ?es)) @ us\<rparr>)"
      "mset us = mset (concat (map (writeCalls env)
                                     (filter (\<lambda>b. cacheStale (bookDetails b)) (joinedBooks ?es))))"
    using promiseAllMap_ok [OF upd pk' entries, of sched] by blast
  have "getBooksForUser env sched uid w =
           (Inr (map (entryView env) ?es),
            w\<lparr>books := map (\<lambda>x. if b_id x \<in> staleIds ?es then refreshed env x else x) (books w),
              trace := trace w @ DbFindAll uid #
                       map fetchCall (filter (\<lambda>b. cacheStale (bookDetails b)) (userBooks w uid)) @ us\<rparr>)"
    using us(1)
    by (simp add: getBooksForUser_def findAllForUser_def userBooks_def faults
        tryCatch_def andThen_def dbCall_def Let_def)
  then show ?thesis
    using us(2) by (auto simp: userBooks_def)
qed

lemma newCalls_append [simp]:
  "trace w' = trace w @ xs \<Longrightarrow> newCalls w w' = xs"
  by (simp add: newCalls_def)

lemma callFails_update [simp]: "callFails env w (DbUpdateBook k d) = dbFault env (DbUpdateBook k d)"
  by (simp add: callFails_def split: option.splits)

lemma callFails_fetch [simp]:
  "callFails env w (ProviderFetch link)
     = (case getFromBookQuickLink env link of Inl t \<Rightarrow> Some t | Inr d \<Rightarrow> None)"
  by (simp add: callFails_def)

lemma doomed_update:
  "\<exists>k \<in> set ts. doomed k \<Longrightarrow> i < length ts \<Longrightarrow> (doomed (ts ! i) \<Longrightarrow> doomed y)
    \<Longrightarrow> \<exists>k \<in> set (ts[i := y]). doomed k"
proof -
  assume a: "\<exists>k \<in> set ts. doomed k" and i: "i < length ts" and y: "doomed (ts ! i) \<Longrightarrow> doomed y"
  from a obtain j where j: "j < length ts" "doomed (ts ! j)"
    by (auto simp: in_set_conv_nth)
  show ?thesis
  proof (cases "j = i")
    case True
    then have "doomed y" using y j by simp
    moreover have "y \<in> set (ts[i := y])"
      using i by (simp add: set_update_memI)
    ultimately show ?thesis by blast
  next
    case False
    then have "ts[i := y] ! j = ts ! j" by simp
    then have "ts ! j \<in> set (ts[i := y])"
      using j(1) by (metis length_list_update nth_mem)
    then show ?thesis using j(2) by blast
  qed
qed

lemma in_set_updateD: "x \<in> set (ts[i := y]) \<Longrightarrow> x = y \<or> x \<in> set ts"
  using set_update_subset_insert [of ts i y] by auto

lemma resume_trace: "trace (snd (resumeCallback env t w)) = trace w @ pendingWrite t"
  by (induction env t w rule: resumeCallback.induct)
    (simp_all add: updateBookDetails_def dbCall_def Let_def split: option.splits)

lemma wld_resumeAt:
  "i < length (tasks s) \<Longrightarrow> trace (wld (resumeAt env i s)) = trace (wld s) @ pendingWrite (tasks s ! i)"
  using resume_trace [of env "tasks s ! i" "wld s"]
  by (simp add: resumeAt_def case_prod_beta)

lemma rejection_resumeAt:
  "i < length (tasks s) \<Longrightarrow>
     rejection (resumeAt env i s) =
       (case rejection s of
          Some x \<Rightarrow> Some x
        | None \<Rightarrow> (case advance env (tasks s ! i) of Settled (Inl t) \<Rightarrow> Some t | _ \<Rightarrow> None))"
  by (simp add: resumeAt_def case_prod_beta resume_task split: option.splits)

lemma failure_advance:
  "failure (advance env k) = Some t
    \<Longrightarrow> failure k = Some t \<or> (\<exists>ev \<in> set (pendingWrite k). callFails env w ev = Some t)"
  by (induction env k rule: advance.induct) (auto split: option.splits)

lemma rejected_advance:
  "advance env k = Settled (Inl t) \<Longrightarrow> failure k = Some t \<or> k = Settled (Inl t)"
  by (induction env k rule: advance.induct) (auto split: option.splits)

lemma doomed_advance: "doomed k \<Longrightarrow> doomed (advance env k)"
  by (cases k rule: doomed.cases) (auto split: option.splits)

lemma failing_write_dooms:
  "\<exists>ev \<in> set (pendingWrite k). callFails env w ev \<noteq> None \<Longrightarrow> doomed (advance env k)"
  by (induction env k rule: advance.induct) (auto split: option.splits)

lemma failLoop_step:
  assumes inv: "failLoop env w n nb s" and i: "i < length (tasks s)"
  shows "failLoop env w n nb (resumeAt env i s)"
proof -
  let ?ts = "tasks s"
  let ?k = "?ts ! i"
  let ?E = "drop n (trace (wld s))"
  let ?s = "resumeAt env i s"
  from inv have len: "n \<le> length (trace (wld s))"
    and first: "\<And>t. rejection s = Some t \<Longrightarrow>
             t = nullBookError \<and> nb \<or> (\<exists>ev \<in> set ?E. callFails env w ev = Some t)"
    and kept: "\<And>x. Settled (Inl x) \<in> set ?ts \<Longrightarrow> rejection s \<noteq> None"
    and sound: "\<And>k t. k \<in> set ?ts \<Longrightarrow> failure k = Some t \<Longrightarrow>
             (\<exists>ev \<in> set ?E. callFails env w ev = Some t)"
    and some: "(\<exists>ev \<in> set ?E. callFails env w ev \<noteq> None) \<Longrightarrow> (\<exists>k \<in> set ?ts. doomed k)"
    unfolding failLoop_def by blast+
  have ts': "tasks ?s = ?ts[i := advance env ?k]"
    using i by (simp add: tasks_resumeAt advanceAt_def)
  have E': "drop n (trace (wld ?s)) = ?E @ pendingWrite ?k"
    using len by (simp add: wld_resumeAt [OF i])
  have rej': "rejection ?s =
       (case rejection s of
          Some x \<Rightarrow> Some x
        | None \<Rightarrow> (case advance env ?k of Settled (Inl t) \<Rightarrow> Some t | _ \<Rightarrow> None))"
    using rejection_resumeAt [OF i] .
  have k: "?k \<in> set ?ts"
    using i by simp
  have len': "n \<le> length (trace (wld ?s))"
    using len by (simp add: wld_resumeAt [OF i])
  have first': "t = nullBookError \<and> nb
      \<or> (\<exists>ev \<in> set (drop n (trace (wld ?s))). callFails env w ev = Some t)"
    if t: "rejection ?s = Some t" for t
  proof (cases "rejection s")
    case (Some x)
    then have "rejection s = Some t" using t rej' by simp
    then show ?thesis using first [of t] E' by auto
  next
    case None
    then have "advance env ?k = Settled (Inl t)"
      using t rej' by (auto split: task.splits sum.splits)
    then have "failure ?k = Some t \<or> ?k = Settled (Inl t)"
      by (rule rejected_advance)
    moreover have "?k \<noteq> Settled (Inl t)"
      using kept [of t] k None by auto
    ultimately have "\<exists>ev \<in> set ?E. callFails env w ev = Some t"
      using sound [OF k] by blast
    then show ?thesis using E' by auto
  qed
  have kept': "rejection ?s \<noteq> None" if x: "Settled (Inl x) \<in> set (tasks ?s)" for x
  proof -
    have "Settled (Inl x) = advance env ?k \<or> Settled (Inl x) \<in> set ?ts"
      using x ts' in_set_updateD by metis
    then show ?thesis
    proof
      assume "Settled (Inl x) = advance env ?k"
      then have "advance env ?k = Settled (Inl x)" by simp
      then show ?thesis using rej' by (cases "rejection s") simp_all
    next
      assume "Settled (Inl x) \<in> set ?ts"
      then show ?thesis using kept rej' by (cases "rejection s") auto
    qed
  qed
  have sound': "\<exists>ev \<in> set (drop n (trace (wld ?s))). callFails env w ev = Some t"
    if a: "a \<in> set (tasks ?s)" and t: "failure a = Some t" for a t
  proof -
    have "a = advance env ?k \<or> a \<in> set ?ts"
      using a ts' in_set_updateD by metis
    then show ?thesis
    proof
      assume "a = advance env ?k"
      then have "failure ?k = Some t \<or> (\<exists>ev \<in> set (pendingWrite ?k). callFails env w ev = Some t)"
        using t failure_advance by metis
      then show ?thesis using sound [OF k] E' by auto
    next
      assume "a \<in> set ?ts"
      then show ?thesis using sound t E' by auto
    qed
  qed
  have some': "\<exists>a \<in> set (tasks ?s). doomed a"
    if "\<exists>ev \<in> set (drop n (trace (wld ?s))). callFails env w ev \<noteq> None"
  proof -
    from that E' consider
        (old) "\<exists>ev \<in> set ?E. callFails env w ev \<noteq> None"
      | (new) "\<exists>ev \<in> set (pendingWrite ?k). callFails env w ev \<noteq> None"
      by auto
    then show ?thesis
    proof cases
      case old
      then have "\<exists>a \<in> set ?ts. doomed a" by (rule some)
      then show ?thesis
        unfolding ts' using i doomed_advance by (intro doomed_update) auto
    next
      case new
      then have "doomed (advance env ?k)" by (rule failing_write_dooms)
      moreover have "advance env ?k \<in> set (?ts[i := advance env ?k])"
        using i by (simp add: set_update_memI)
      ultimately show ?thesis unfolding ts' by blast
    qed
  qed
  show ?thesis
    unfolding failLoop_def using len' first' kept' sound' some' by blast
qed

lemma firstRejection_mem: "firstRejection ts = Some t \<Longrightarrow> Settled (Inl t) \<in> set ts"
  by (induction ts rule: firstRejection.induct) auto

lemma firstRejection_some: "Settled (Inl x) \<in> set ts \<Longrightarrow> firstRejection ts \<noteq> None"
  by (induction ts rule: firstRejection.induct) auto

lemma startCallback_facts:
  "\<exists>fs. trace (snd (startCallback env e wa)) = trace wa @ fs
      \<and> (\<forall>t. failure (fst (startCallback env e wa)) = Some t
             \<longrightarrow> (\<exists>ev \<in> set fs. callFails env w ev = Some t))
      \<and> ((\<exists>ev \<in> set fs. callFails env w ev \<noteq> None) \<longrightarrow> doomed (fst (startCallback env e wa)))
      \<and> (\<forall>x. fst (startCallback env e wa) = Settled (Inl x)
             \<longrightarrow> x = nullBookError \<and> snd e = None)"
proof (cases "snd e")
  case None
  then show ?thesis
    by (intro exI [of _ "[]"]) (simp add: startCallback_def)
next
  case (Some b)
  show ?thesis
  proof (cases "cacheStale (bookDetails b)")
    case True
    then show ?thesis
      using Some
      by (intro exI [of _ "[ProviderFetch (quickLink b)]"])
        (cases "getFromBookQuickLink env (quickLink b)";
          simp add: startCallback_def fetchDetails_def)
  next
    case False
    then show ?thesis
      using Some by (intro exI [of _ "[]"]) (simp add: startCallback_def)
  qed
qed

lemma startAll_facts:
  "\<exists>fs. trace (snd (startAll env es wa)) = trace wa @ fs
      \<and> (\<forall>k \<in> set (fst (startAll env es wa)). \<forall>t. failure k = Some t
             \<longrightarrow> (\<exists>ev \<in> set fs. callFails env w ev = Some t))
      \<and> ((\<exists>ev \<in> set fs. callFails env w ev \<noteq> None)
             \<longrightarrow> (\<exists>k \<in> set (fst (startAll env es wa)). doomed k))
      \<and> (\<forall>x. Settled (Inl x) \<in> set (fst (startAll env es wa))
             \<longrightarrow> x = nullBookError \<and> (\<exists>e \<in> set es. snd e = None))"
proof (induction es arbitrary: wa)
  case Nil
  then show ?case by simp
next
  case (Cons e es)
  let ?k = "fst (startCallback env e wa)"
  let ?wb = "snd (startCallback env e wa)"
  let ?ts = "fst (startAll env es ?wb)"
  obtain f1 where f1: "trace ?wb = trace wa @ f1"
      "\<forall>t. failure ?k = Some t \<longrightarrow> (\<exists>ev \<in> set f1. callFails env w ev = Some t)"
      "(\<exists>ev \<in> set f1. callFails env w ev \<noteq> None) \<longrightarrow> doomed ?k"
      "\<forall>x. ?k = Settled (Inl x) \<longrightarrow> x = nullBookError \<and> snd e = None"
    using startCallback_facts [of env e wa w] by blast
  obtain f2 where f2: "trace (snd (startAll env es ?wb)) = trace ?wb @ f2"
      "\<forall>k \<in> set ?ts. \<forall>t. failure k = Some t \<longrightarrow> (\<exists>ev \<in> set f2. callFails env w ev = Some t)"
      "(\<exists>ev \<in> set f2. callFails env w ev \<noteq> None) \<longrightarrow> (\<exists>k \<in> set ?ts. doomed k)"
      "\<forall>x. Settled (Inl x) \<in> set ?ts \<longrightarrow> x = nullBookError \<and> (\<exists>e \<in> set es. snd e = None)"
    using Cons.IH [of ?wb] by blast
  have unfold: "startAll env (e # es) wa = (?k # ?ts, snd (startAll env es ?wb))"
    by (simp add: case_prod_beta)
  show ?case
    unfolding unfold fst_conv snd_conv
  proof (intro exI [of _ "f1 @ f2"] conjI)
    show "trace (snd (startAll env es ?wb)) = trace wa @ f1 @ f2"
      using f1(1) f2(1) by simp
    show "\<forall>k \<in> set (?k # ?ts). \<forall>t. failure k = Some t
             \<longrightarrow> (\<exists>ev \<in> set (f1 @ f2). callFails env w ev = Some t)"
      using f1(2) f2(2) by (auto simp: bex_Un)
    show "(\<exists>ev \<in> set (f1 @ f2). callFails env w ev \<noteq> None) \<longrightarrow> (\<exists>k \<in> set (?k # ?ts). doomed k)"
      using f1(3) f2(3) by (auto simp: bex_Un)
    show "\<forall>x. Settled (Inl x) \<in> set (?k # ?ts)
             \<longrightarrow> x = nullBookError \<and> (\<exists>e \<in> set (e # es). snd e = None)"
    proof (intro allI impI)
      fix x assume "Settled (Inl x) \<in> set (?k # ?ts)"
      then consider "?k = Settled (Inl x)" | "Settled (Inl x) \<in> set ?ts"
        by auto
      then show "x = nullBookError \<and> (\<exists>e \<in> set (e # es). snd e = None)"
      proof cases
        case 1
        then show ?thesis using f1(4) by simp
      next
        case 2
        then show ?thesis using f2(4) by simp
      qed
    qed
  qed
qed

lemma doomed_settled: "doomed k \<Longrightarrow> turnsLeft k = 0 \<Longrightarrow> \<exists>x. k = Settled (Inl x)"
  by (cases k rule: doomed.cases) auto

lemma promiseAllMap_failure:
  assumes n: "length (trace w) \<le> length (trace wa)"
      and before: "\<forall>ev \<in> set (drop (length (trace w)) (trace wa)). callFails env w ev = None"
      and failed: "\<exists>ev \<in> set (drop (length (trace w)) (trace (snd (promiseAllMap env sched es wa)))).
                     callFails env w ev \<noteq> None"
  shows "\<exists>t. fst (promiseAllMap env sched es wa) = Inl t
           \<and> (t = nullBookError \<and> (\<exists>e \<in> set es. snd e = None)
               \<or> (\<exists>ev \<in> set (drop (length (trace w)) (trace (snd (promiseAllMap env sched es wa)))).
                     callFails env w ev = Some t))"
proof -
  let ?n = "length (trace w)"
  let ?ts = "fst (startAll env es wa)"
  let ?wb = "snd (startAll env es wa)"
  let ?init = "\<lparr>tasks = ?ts, rejection = firstRejection ?ts, wld = ?wb\<rparr>"
  let ?fin = "runSchedule env (sched @ [0..<length ?ts] @ [0..<length ?ts]) ?init"
  obtain fs where fs: "trace ?wb = trace wa @ fs"
      "\<forall>k \<in> set ?ts. \<forall>t. failure k = Some t \<longrightarrow> (\<exists>ev \<in> set fs. callFails env w ev = Some t)"
      "(\<exists>ev \<in> set fs. callFails env w ev \<noteq> None) \<longrightarrow> (\<exists>k \<in> set ?ts. doomed k)"
      "\<forall>x. Settled (Inl x) \<in> set ?ts \<longrightarrow> x = nullBookError \<and> (\<exists>e \<in> set es. snd e = None)"
    using startAll_facts [of env es wa w] by blast
  have E0: "drop ?n (trace ?wb) = drop ?n (trace wa) @ fs"
    using n fs(1) by simp
  have start: "failLoop env w ?n (\<exists>e \<in> set es. snd e = None) ?init"
    unfolding failLoop_def
  proof (intro conjI allI impI ballI)
    show "?n \<le> length (trace (wld ?init))"
      using n fs(1) by simp
  next
    fix t assume "rejection ?init = Some t"
    then have "Settled (Inl t) \<in> set ?ts"
      using firstRejection_mem by simp
    then show "t = nullBookError \<and> (\<exists>e \<in> set es. snd e = None)
        \<or> (\<exists>ev \<in> set (drop ?n (trace (wld ?init))). callFails env w ev = Some t)"
      using fs(4) by blast
  next
    fix x assume "Settled (Inl x) \<in> set (tasks ?init)"
    then show "rejection ?init \<noteq> None"
      using firstRejection_some by simp
  next
    fix k t assume "k \<in> set (tasks ?init)" "failure k = Some t"
    then show "\<exists>ev \<in> set (drop ?n (trace (wld ?init))). callFails env w ev = Some t"
      using fs(2) E0 by auto
  next
    assume "\<exists>ev \<in> set (drop ?n (trace (wld ?init))). callFails env w ev \<noteq> None"
    then have "\<exists>ev \<in> set fs. callFails env w ev \<noteq> None"
      using before E0 by auto
    then show "\<exists>k \<in> set (tasks ?init). doomed k"
      using fs(3) by simp
  qed
  have final: "failLoop env w ?n (\<exists>e \<in> set es. snd e = None) ?fin"
    using start failLoop_step
    by (rule runSchedule_invariant [where P = "failLoop env w ?n (\<exists>e \<in> set es. snd e = None)"])
  have settled: "\<forall>t \<in> set (tasks ?fin). turnsLeft t = 0"
    using all_tasks_settled [of env sched ?init] by simp
  have result: "promiseAllMap env sched es wa =
      ((case rejection ?fin of Some t \<Rightarrow> Inl t | None \<Rightarrow> Inr (resolved (tasks ?fin))), wld ?fin)"
    by (simp add: promiseAllMap_def case_prod_beta Let_def)
  from failed have "\<exists>ev \<in> set (drop ?n (trace (wld ?fin))). callFails env w ev \<noteq> None"
    unfolding result by simp
  then obtain k where k: "k \<in> set (tasks ?fin)" "doomed k"
    using final unfolding failLoop_def by blast
  then obtain x where "k = Settled (Inl x)"
    using settled doomed_settled by blast
  then have "rejection ?fin \<noteq> None"
    using final k(1) unfolding failLoop_def by blast
  then obtain t where t: "rejection ?fin = Some t"
    by blast
  then have "t = nullBookError \<and> (\<exists>e \<in> set es. snd e = None)
      \<or> (\<exists>ev \<in> set (drop ?n (trace (wld ?fin))). callFails env w ev = Some t)"
    using final unfolding failLoop_def by blast
  then show ?thesis
    unfolding result using t by simp
qed

lemma getBooksForUser_failure:
  assumes failed: "\<exists>ev \<in> set (newCalls w (snd (getBooksForUser env sched uid w))).
                     callFails env w ev \<noteq> None"
  shows "\<exists>t. fst (getBooksForUser env sched uid w) = Inl (rethrow t)
           \<and> (t = nullBookError \<and> (\<exists>e \<in> set (userEntries w uid). snd e = None)
               \<or> (\<exists>ev \<in> set (newCalls w (snd (getBooksForUser env sched uid w))).
                     callFails env w ev = Some t))"
proof (cases "dbFault env (DbFindAll uid)")
  case (Some t)
  then have "getBooksForUser env sched uid w
      = (Inl (rethrow t), w\<lparr>trace := trace w @ [DbFindAll uid]\<rparr>)"
    by (simp add: getBooksForUser_def findAllForUser_def tryCatch_def andThen_def dbCall_def Let_def)
  moreover have "callFails env w (DbFindAll uid) = Some t"
    using Some by (simp add: callFails_def)
  ultimately show ?thesis
    by (intro exI [of _ t]) (simp add: newCalls_def)
next
  case None
  let ?wa = "w\<lparr>trace := trace w @ [DbFindAll uid]\<rparr>"
  let ?es = "userEntries w uid"
  have run: "getBooksForUser env sched uid w
      = (case promiseAllMap env sched ?es ?wa of
           (Inl t, w') \<Rightarrow> (Inl (rethrow t), w') | (Inr x, w') \<Rightarrow> (Inr x, w'))"
    using None
    by (simp add: getBooksForUser_def findAllForUser_def tryCatch_def andThen_def dbCall_def Let_def)
  then have world: "snd (getBooksForUser env sched uid w) = snd (promiseAllMap env sched ?es ?wa)"
    by (simp split: prod.splits sum.splits)
  have n: "length (trace w) \<le> length (trace ?wa)"
    by simp
  have before: "\<forall>ev \<in> set (drop (length (trace w)) (trace ?wa)). callFails env w ev = None"
    using None by (simp add: callFails_def)
  have failed': "\<exists>ev \<in> set (drop (length (trace w)) (trace (snd (promiseAllMap env sched ?es ?wa)))).
                     callFails env w ev \<noteq> None"
    using failed unfolding world newCalls_def .
  obtain t where t: "fst (promiseAllMap env sched ?es ?wa) = Inl t"
      "t = nullBookError \<and> (\<exists>e \<in> set ?es. snd e = None)
       \<or> (\<exists>ev \<in> set (drop (length (trace w)) (trace (snd (promiseAllMap env sched ?es ?wa)))).
             callFails env w ev = Some t)"
    using promiseAllMap_failure [OF n before failed'] by blast
  have "fst (getBooksForUser env sched uid w) = Inl (rethrow t)"
    unfolding run using t(1) by (auto split: prod.splits sum.splits)
  then show ?thesis
    using t(2) unfolding world newCalls_def by blast
qed

lemma getBookForUser_failure:
  "\<forall>ev \<in> set (newCalls w (snd (getBookForUser env uid aid w))). \<forall>t.
      callFails env w ev = Some t \<longrightarrow> fst (getBookForUser env uid aid w) = Inl (rethrow t)"
  by (auto simp: getBookForUser_def findOneUserIdWithBook_def fetchDetails_def newCalls_def
      callFails_def tryCatch_def andThen_def dbCall_def ret_def throw_def Let_def
      split: option.splits sum.splits prod.splits)

lemma deleteBookFromUser_failure:
  "\<forall>ev \<in> set (newCalls w (snd (deleteBookFromUser env uid aid w))). \<forall>t.
      callFails env w ev = Some t \<longrightarrow> fst (deleteBookFromUser env uid aid w) = Inl (rethrow t)"
  by (auto simp: deleteBookFromUser_def destroyUsersBooks_def newCalls_def
      callFails_def tryCatch_def andThen_def dbCall_def ret_def throw_def Let_def
      split: option.splits sum.splits prod.splits)

lemma updateUserBook_failure:
  "\<forall>ev \<in> set (newCalls w (snd (updateUserBook env now uid aid rating started finished notes w))). \<forall>t.
      callFails env w ev = Some t
      \<longrightarrow> fst (updateUserBook env now uid aid rating started finished notes w) = Inl (rethrow t)"
  by (auto simp: updateUserBook_def findOneUserId_def updateRow_def findOneId_def newCalls_def
      callFails_def tryCatch_def andThen_def dbCall_def ret_def throw_def Let_def
      split: option.splits sum.splits prod.splits if_splits)

lemma addBookToUser_failure:
  "\<forall>ev \<in> set (newCalls w (snd (addBookToUser env now uid bid rating started finished notes imp w))). \<forall>t.
      callFails env w ev = Some t
      \<longrightarrow> fst (addBookToUser env now uid bid rating started finished notes imp w)
            = Inl (if ev = DbFindBookByPk bid then t else rethrow t)"
  by (auto simp: addBookToUser_def findBookByPk_def findOneUserBook_def createUsersBooks_def
      findOneId_def newCalls_def
      callFails_def tryCatch_def andThen_def dbCall_def ret_def throw_def Let_def
      split: option.splits sum.splits prod.splits if_splits)

text \<open>
  C7. \<open>deleteBookFromUser(userId, associationId)\<close> removes exactly the rows that match
  both \<open>userId\<close> and the association id. When no row matches (the association belongs to
  another user, or does not exist), the call rejects with the not-found error
  \<open>Book not found\<close> and every association row is left as it was; when a row matches,
  the call resolves. (The store call itself is assumed not to fail.)
\<close>

theorem deleteBookFromUser_scoped:
  assumes "dbFault env (DbDestroy uid aid) = None"
  shows "usersBooks (snd (deleteBookFromUser env uid aid w))
           = filter (\<lambda>r. \<not> (userId r = uid \<and> ub_id r = aid)) (usersBooks w)
       \<and> books (snd (deleteBookFromUser env uid aid w)) = books w
       \<and> (if \<exists>r \<in> set (usersBooks w). userId r = uid \<and> ub_id r = aid
          then fst (deleteBookFromUser env uid aid w) = Inr ()
          else fst (deleteBookFromUser env uid aid w) = Inl (JsError ''Book not found'')
             \<and> usersBooks (snd (deleteBookFromUser env uid aid w)) = usersBooks w)"
proof -
  let ?match = "\<lambda>r. userId r = uid \<and> ub_id r = aid"
  have none: "filter ?match (usersBooks w) = [] \<longleftrightarrow> \<not> (\<exists>r \<in> set (usersBooks w). ?match r)"
    by (simp add: filter_empty_conv)
  have keep: "\<not> (\<exists>r \<in> set (usersBooks w). ?match r)
      \<Longrightarrow> filter (\<lambda>r. \<not> ?match r) (usersBooks w) = usersBooks w"
    by (simp add: filter_id_conv)
  show ?thesis
    using assms none keep
    by (simp add: deleteBookFromUser_def tryCatch_def andThen_def destroyUsersBooks_def
        dbCall_def throw_def ret_def rethrow_def Let_def)
qed

theorem deleteBookFromUser_scoped_witness:
  "dbFault env0 (DbDestroy 2 1) = None
   \<and> fst (deleteBookFromUser env0 2 1 world1) = Inl (JsError ''Book not found'')
   \<and> usersBooks (snd (deleteBookFromUser env0 2 1 world1)) = [row1]
   \<and> fst (deleteBookFromUser env0 1 1 world1) = Inr ()
   \<and> usersBooks (snd (deleteBookFromUser env0 1 1 world1)) = []"
proof -
  have f: "dbFault env0 (DbDestroy 2 1) = None" "dbFault env0 (DbDestroy 1 1) = None"
    by (simp_all add: env0_def)
  show ?thesis
    using deleteBookFromUser_scoped [OF f(1), of world1]
      deleteBookFromUser_scoped [OF f(2), of world1] f(1)
    by (simp add: world1_def row1_def)
qed

text \<open>
  C5. \<open>addBookToUser\<close> checks, in this order, (1) \<open>userRating > 10\<close>, (2)
  \<open>dateStarted\<close> after \<open>dateFinished\<close> when both are given, (3) \<open>dateStarted\<close> in the
  future, (4) that the book exists. The first check that fails gives the message of the
  rejection. A failure of one of the checks 1 to 3 leaves the world as it was: no call
  to the store is made (the trace is unchanged), so nothing of a later check is seen.
  The fourth check makes exactly one call, \<open>Book.findByPk\<close>.
\<close>

theorem addBookToUser_validation_order:
  "(ratingAbove10 rating \<longrightarrow>
      addBookToUser env now uid bid rating started finished notes imp w
        = (Inl (JsError ''User rating must be between 1 and 10''), w))
   \<and> (\<not> ratingAbove10 rating \<and> startedAfterFinished started finished \<longrightarrow>
      addBookToUser env now uid bid rating started finished notes imp w
        = (Inl (JsError ''Date started must be before date finished''), w))
   \<and> (\<not> ratingAbove10 rating \<and> \<not> startedAfterFinished started finished
        \<and> startedInFuture now started \<longrightarrow>
      addBookToUser env now uid bid rating started finished notes imp w
        = (Inl (JsError ''Date started must be in the past''), w))
   \<and> (\<not> ratingAbove10 rating \<and> \<not> startedAfterFinished started finished
        \<and> \<not> startedInFuture now started
        \<and> dbFault env (DbFindBookByPk bid) = None
        \<and> find (\<lambda>b. b_id b = bid) (books w) = None \<longrightarrow>
      addBookToUser env now uid bid rating started finished notes imp w
        = (Inl (JsError ''Book does not exist''), w\<lparr>trace := trace w @ [DbFindBookByPk bid]\<rparr>))"
  by (simp add: addBookToUser_def findBookByPk_def io_defs)

theorem addBookToUser_validation_order_witness:
  "ratingAbove10 (Some 11)
   \<and> addBookToUser env0 50 1 99 (Some 11) (Some 200) (Some 100) None False world0
       = (Inl (JsError ''User rating must be between 1 and 10''), world0)
   \<and> \<not> ratingAbove10 (Some 8) \<and> startedAfterFinished (Some 200) (Some 100)
   \<and> addBookToUser env0 50 1 99 (Some 8) (Some 200) (Some 100) None False world0
       = (Inl (JsError ''Date started must be before date finished''), world0)
   \<and> \<not> startedAfterFinished (Some 200) None \<and> startedInFuture 50 (Some 200)
   \<and> addBookToUser env0 50 1 99 (Some 8) (Some 200) None None False world0
       = (Inl (JsError ''Date started must be in the past''), world0)
   \<and> \<not> startedInFuture 300 (Some 200)
   \<and> dbFault env0 (DbFindBookByPk 99) = None
   \<and> find (\<lambda>b. b_id b = 99) (books world0) = None
   \<and> addBookToUser env0 300 1 99 (Some 8) (Some 200) None None False world0
       = (Inl (JsError ''Book does not exist''), world0\<lparr>trace := trace world0 @ [DbFindBookByPk 99]\<rparr>)"
proof -
  have h: "ratingAbove10 (Some 11)" "\<not> ratingAbove10 (Some 8)"
    "startedAfterFinished (Some 200) (Some 100)" "\<not> startedAfterFinished (Some 200) None"
    "startedInFuture 50 (Some 200)" "\<not> startedInFuture 300 (Some 200)"
    "dbFault env0 (DbFindBookByPk 99) = None"
    "find (\<lambda>b. b_id b = 99) (books world0) = None"
    by (simp_all add: ratingAbove10_def startedAfterFinished_def startedInFuture_def env0_def
        world0_def book5_def)
  show ?thesis
    using h
      addBookToUser_validation_order [of "Some 11" env0 50 1 99 "Some 200" "Some 100" None False world0]
      addBookToUser_validation_order [of "Some 8" env0 50 1 99 "Some 200" "Some 100" None False world0]
      addBookToUser_validation_order [of "Some 8" env0 50 1 99 "Some 200" None None False world0]
      addBookToUser_validation_order [of "Some 8" env0 300 1 99 "Some 200" None None False world0]
    by simp
qed

text \<open>
  C3. As stated (\<open>updateUserBook\<close> on a missing association rejects with the not-found
  error whatever the payload) the claim fails: the input checks run before the lookup,
  so an invalid payload is rejected with its validation message and the store is not
  consulted. What holds: on a missing association \<open>updateUserBook\<close> always rejects; the
  rejection is \<open>Book not found for this user\<close> when the payload passes the three input
  checks, and the message of the first failing check otherwise.
\<close>

theorem updateUserBook_missing_association:
  assumes "find (\<lambda>r. userId r = uid \<and> ub_id r = aid) (usersBooks w) = None"
      and "dbFault env (DbFindOneUserId uid aid) = None"
  shows "updateUserBook env now uid aid rating started finished notes w =
     (if ratingOutOfRange rating
      then (Inl (JsError ''User rating must be between 1 and 10''), w)
      else if startedAfterFinished started finished
      then (Inl (JsError ''Date started must be before date finished''), w)
      else if startedInFuture now started
      then (Inl (JsError ''Date started must be in the past''), w)
      else (Inl (JsError ''Book not found for this user''),
            w\<lparr>trace := trace w @ [DbFindOneUserId uid aid]\<rparr>))"
  using assms by (simp add: updateUserBook_def findOneUserId_def io_defs)

theorem updateUserBook_missing_association_witness:
  "find (\<lambda>r. userId r = 1 \<and> ub_id r = 7) (usersBooks world1) = None
   \<and> dbFault env0 (DbFindOneUserId 1 7) = None
   \<and> updateUserBook env0 300 1 7 (Some 8) (Some 100) None None world1
       = (Inl (JsError ''Book not found for this user''),
          world1\<lparr>trace := trace world1 @ [DbFindOneUserId 1 7]\<rparr>)
   \<and> updateUserBook env0 300 1 7 (Some 11) (Some 100) None None world1
       = (Inl (JsError ''User rating must be between 1 and 10''), world1)"
proof -
  have h: "find (\<lambda>r. userId r = 1 \<and> ub_id r = 7) (usersBooks world1) = None"
    "dbFault env0 (DbFindOneUserId 1 7) = None"
    by (simp_all add: world1_def row1_def env0_def)
  show ?thesis
    using h updateUserBook_missing_association [OF h, of 300 "Some 8" "Some 100" None None]
      updateUserBook_missing_association [OF h, of 300 "Some 11" "Some 100" None None]
    by (simp add: ratingOutOfRange_def startedAfterFinished_def startedInFuture_def)
qed

theorem updateUserBook_invalid_payload_counterexample:
  "find (\<lambda>r. userId r = 1 \<and> ub_id r = 7) (usersBooks world1) = None
   \<and> fst (updateUserBook env0 300 1 7 (Some 11) None None None world1)
       = Inl (JsError ''User rating must be between 1 and 10'')
   \<and> fst (updateUserBook env0 300 1 7 (Some 11) None None None world1)
       \<noteq> Inl (JsError ''Book not found for this user'')"
  by (simp add: updateUserBook_def ratingOutOfRange_def throw_def world1_def row1_def)

text \<open>
  C4. A rating of 11 is rejected by \<open>addBookToUser\<close> and by \<open>updateUserBook\<close>, and a
  rating of 0 is rejected by \<open>updateUserBook\<close>, each before any call to the store. A
  rating of 0 is not rejected by \<open>addBookToUser\<close>: the call behaves exactly as the call
  with no rating (only the upper bound is checked, and the row is created with a
  \<open>null\<close> rating, which the validators of the model skip).
\<close>

theorem rating_bounds_asymmetry:
  "addBookToUser env now uid bid (Some 11) started finished notes imp w
     = (Inl (JsError ''User rating must be between 1 and 10''), w)
   \<and> updateUserBook env now uid aid (Some 11) started finished notes w
     = (Inl (JsError ''User rating must be between 1 and 10''), w)
   \<and> updateUserBook env now uid aid (Some 0) started finished notes w
     = (Inl (JsError ''User rating must be between 1 and 10''), w)
   \<and> addBookToUser env now uid bid (Some 0) started finished notes imp w
     = addBookToUser env now uid bid None started finished notes imp w"
proof -
  have coerced: "ratingOrNull (Some 0) = ratingOrNull None"
    by (simp add: ratingOrNull_def)
  have "addBookToUser env now uid bid (Some 0) started finished notes imp w
     = addBookToUser env now uid bid None started finished notes imp w"
    unfolding addBookToUser_def coerced by (simp add: ratingAbove10_def)
  then show ?thesis
    by (simp add: addBookToUser_def updateUserBook_def ratingAbove10_def ratingOutOfRange_def
        throw_def)
qed

theorem rating_bounds_asymmetry_witness:
  "fst (addBookToUser env0 300 1 5 (Some 11) None None None False world0)
     = Inl (JsError ''User rating must be between 1 and 10'')
   \<and> fst (updateUserBook env0 300 1 1 (Some 11) None None None world1)
     = Inl (JsError ''User rating must be between 1 and 10'')
   \<and> fst (updateUserBook env0 300 1 1 (Some 0) None None None world1)
     = Inl (JsError ''User rating must be between 1 and 10'')
   \<and> fst (addBookToUser env0 300 1 5 (Some 0) None None None False world0)
     = Inr (Some (\<lparr>ub_id = 1, userId = 1, bookId = 5, userRating = None, dateStarted = None,
                     dateFinished = None, userNotes = None, importBook = False\<rparr>, Some book5))"
proof -
  have "fst (addBookToUser env0 300 1 5 None None None None False world0)
     = Inr (Some (\<lparr>ub_id = 1, userId = 1, bookId = 5, userRating = None, dateStarted = None,
                     dateFinished = None, userNotes = None, importBook = False\<rparr>, Some book5))"
    by (simp add: addBookToUser_def ratingAbove10_def startedAfterFinished_def
        startedInFuture_def findBookByPk_def findOneUserBook_def createUsersBooks_def
        findOneId_def joinBook_def validateRow_def ratingOrNull_def notesOrNull_def
        io_defs env0_def world0_def book5_def)
  then show ?thesis
    using rating_bounds_asymmetry [of env0 300 1 5 None None None False world0 1]
      rating_bounds_asymmetry [of env0 300 1 5 None None None False world1 1]
    by simp
qed

text \<open>
  C9. When \<open>addBookToUser\<close> is called with \<open>userRating = 0\<close>, passes the input checks and
  reaches the creation of the row (the book exists, the user has no association with
  it, the store accepts the insert), the row created has \<open>userRating = null\<close>, not 0:
  \<open>UsersBooks.create\<close> is handed \<open>null\<close> as the rating.
\<close>

theorem addBookToUser_zero_rating_stored_null:
  assumes "\<not> startedAfterFinished started finished"
      and "\<not> startedInFuture now started"
      and "dbFault env = (\<lambda>ev. None)"
      and "find (\<lambda>b. b_id b = bid) (books w) = Some b"
      and "find (\<lambda>r. userId r = uid \<and> bookId r = bid) (usersBooks w) = None"
      and "uid \<in> set (users w)"
      and "validateRow None (notesOrNull notes) = None"
  shows "usersBooks (snd (addBookToUser env now uid bid (Some 0) started finished notes imp w))
           = usersBooks w @
             [\<lparr>ub_id = nextId w, userId = uid, bookId = bid, userRating = None,
               dateStarted = started, dateFinished = finished,
               userNotes = notesOrNull notes, importBook = imp\<rparr>]
       \<and> trace (snd (addBookToUser env now uid bid (Some 0) started finished notes imp w))
           = trace w @
             [DbFindBookByPk bid, DbFindOneUserBook uid bid,
              DbCreate uid bid None started finished (notesOrNull notes) imp,
              DbFindOneId (nextId w)]"
proof -
  have fk: "bid \<in> b_id ` set (books w)"
    using assms(4) by (rule find_Some_b_id)
  have r0: "ratingOrNull (Some 0) = None"
    by (simp add: ratingOrNull_def)
  show ?thesis
    using assms fk
    by (simp add: addBookToUser_def ratingAbove10_def r0 findBookByPk_def findOneUserBook_def
        createUsersBooks_def findOneId_def io_defs)
qed

theorem addBookToUser_zero_rating_stored_null_witness:
  "\<not> startedAfterFinished (Some 100) (Some 200)
   \<and> \<not> startedInFuture 300 (Some 100)
   \<and> dbFault env0 = (\<lambda>ev. None)
   \<and> find (\<lambda>b. b_id b = 5) (books world0) = Some book5
   \<and> find (\<lambda>r. userId r = 1 \<and> bookId r = 5) (usersBooks world0) = None
   \<and> 1 \<in> set (users world0)
   \<and> validateRow None (notesOrNull (Some [])) = None
   \<and> usersBooks (snd (addBookToUser env0 300 1 5 (Some 0) (Some 100) (Some 200) (Some []) True world0))
       = [\<lparr>ub_id = 1, userId = 1, bookId = 5, userRating = None, dateStarted = Some 100,
           dateFinished = Some 200, userNotes = None, importBook = True\<rparr>]"
proof -
  have h: "\<not> startedAfterFinished (Some 100) (Some 200)"
    "\<not> startedInFuture 300 (Some 100)"
    "dbFault env0 = (\<lambda>ev. None)"
    "find (\<lambda>b. b_id b = 5) (books world0) = Some book5"
    "find (\<lambda>r. userId r = 1 \<and> bookId r = 5) (usersBooks world0) = None"
    "1 \<in> set (users world0)"
    "validateRow None (notesOrNull (Some [])) = None"
    by (simp_all add: startedAfterFinished_def startedInFuture_def env0_def world0_def
        book5_def validateRow_def notesOrNull_def)
  show ?thesis
    using h addBookToUser_zero_rating_stored_null [OF h, of True]
    by (simp add: world0_def notesOrNull_def)
qed

text \<open>
  C6. For every existing association, \<open>getBookForUser\<close> asks the provider on every call,
  whatever the cached \<open>bookDetails\<close> of the book (nothing is assumed of it: the cache is
  not read before the fetch), and overlays the answer on the fields of the book in the
  record returned: every key of the fetched metadata is a field of \<open>book\<close> with the
  fetched value. The calls made are the lookup and one fetch; the store is not written.
\<close>

theorem getBookForUser_always_fetches:
  assumes "dbFault env (DbFindOneUserId uid aid) = None"
      and "find (\<lambda>r. userId r = uid \<and> ub_id r = aid) (usersBooks w) = Some r"
      and "find (\<lambda>b. b_id b = bookId r) (books w) = Some b"
      and "getFromBookQuickLink env (quickLink b) = Inr d"
  shows "\<exists>view bk.
           fst (getBookForUser env uid aid w) = Inr (Some view)
         \<and> map_of view ''book'' = Some (JObj bk)
         \<and> map_of bk = map_of (bookToJSON b) ++ map_of d
         \<and> (\<forall>k v. map_of d k = Some v \<longrightarrow> map_of bk k = Some v)
         \<and> trace (snd (getBookForUser env uid aid w))
             = trace w @ [DbFindOneUserId uid aid, ProviderFetch (quickLink b)]
         \<and> books (snd (getBookForUser env uid aid w)) = books w"
proof -
  let ?bk = "spread (bookToJSON b) d"
  let ?view = "spread (usersBooksToJSON r b) [(''book'', JObj ?bk)]"
  have run: "getBookForUser env uid aid w
      = (Inr (Some ?view), w\<lparr>trace := trace w @ [DbFindOneUserId uid aid, ProviderFetch (quickLink b)]\<rparr>)"
    using assms
    by (simp add: getBookForUser_def findOneUserIdWithBook_def joinBook_def fetchDetails_def
        io_defs)
  have "map_of ?view ''book'' = Some (JObj ?bk)"
    by (rule book_of_view)
  moreover have "map_of ?bk = map_of (bookToJSON b) ++ map_of d"
    by (rule map_of_spread)
  moreover have "\<forall>k v. map_of d k = Some v \<longrightarrow> map_of ?bk k = Some v"
    by (simp add: map_of_spread)
  ultimately show ?thesis
    using run by simp
qed

theorem getBookForUser_always_fetches_witness:
  "dbFault env0 (DbFindOneUserId 1 2) = None
   \<and> find (\<lambda>r. userId r = 1 \<and> ub_id r = 2) (usersBooks world2) = Some row2
   \<and> find (\<lambda>b. b_id b = bookId row2) (books world2) = Some book6
   \<and> getFromBookQuickLink env0 (quickLink book6) = Inr dune
   \<and> \<not> cacheStale (bookDetails book6)
   \<and> trace (snd (getBookForUser env0 1 2 world2))
       = [DbFindOneUserId 1 2, ProviderFetch ''volumes/6'']
   \<and> getProp (getProp (JObj (the (projr (fst (getBookForUser env0 1 2 world2))))) ''book'') ''volumeInfo''
       = JObj [(''title'', JStr ''Dune''), (''pageCount'', JNum 412)]"
proof -
  have h: "dbFault env0 (DbFindOneUserId 1 2) = None"
    "find (\<lambda>r. userId r = 1 \<and> ub_id r = 2) (usersBooks world2) = Some row2"
    "find (\<lambda>b. b_id b = bookId row2) (books world2) = Some book6"
    "getFromBookQuickLink env0 (quickLink book6) = Inr dune"
    by (simp_all add: env0_def world2_def row1_def row2_def book5_def book6_def)
  have fresh: "\<not> cacheStale (bookDetails book6)"
    by (simp add: cacheStale_def optProp_def book6_def emma_def)
  have dune_vi: "map_of dune ''volumeInfo'' = Some (JObj [(''title'', JStr ''Dune''), (''pageCount'', JNum 412)])"
    by (simp add: dune_def)
  obtain view bk where v: "fst (getBookForUser env0 1 2 world2) = Inr (Some view)"
    "map_of view ''book'' = Some (JObj bk)"
    "\<forall>k v. map_of dune k = Some v \<longrightarrow> map_of bk k = Some v"
    "trace (snd (getBookForUser env0 1 2 world2))
       = trace world2 @ [DbFindOneUserId 1 2, ProviderFetch (quickLink book6)]"
    using getBookForUser_always_fetches [OF h] by blast
  have "map_of bk ''volumeInfo'' = Some (JObj [(''title'', JStr ''Dune''), (''pageCount'', JNum 412)])"
    using v(3) dune_vi by blast
  then show ?thesis
    using h fresh v by (simp add: world2_def book6_def)
qed

text \<open>
  C2. \<open>addBookToUser\<close> is idempotent on \<open>(userId, bookId)\<close>. From a world with no
  association for the pair, let a first call succeed. Then it has created exactly one
  row, and the association it returns has the key of that row. A second call with the
  same pair, whatever its rating, dates, notes and import flag, leaves the table as it
  is; when its arguments pass the input checks it returns that same row, and the only
  calls it makes are the two lookups \<open>Book.findByPk\<close> and \<open>UsersBooks.findOne\<close>: no
  insert and no update. (The store is assumed not to fail.)
\<close>

theorem addBookToUser_idempotent:
  assumes faults: "dbFault env = (\<lambda>ev. None)"
      and noprior: "find (\<lambda>r. userId r = uid \<and> bookId r = bid) (usersBooks w) = None"
      and first: "addBookToUser env now uid bid rating started finished notes imp w = (Inr res1, w1)"
  shows "\<exists>found bk row.
           res1 = Some (found, bk) \<and> ub_id found = ub_id row
         \<and> userId row = uid \<and> bookId row = bid
         \<and> usersBooks w1 = usersBooks w @ [row]
         \<and> usersBooks (snd (addBookToUser env now2 uid bid rating2 started2 finished2 notes2 imp2 w1))
             = usersBooks w1
         \<and> (\<not> ratingAbove10 rating2 \<and> \<not> startedAfterFinished started2 finished2
              \<and> \<not> startedInFuture now2 started2 \<longrightarrow>
            addBookToUser env now2 uid bid rating2 started2 finished2 notes2 imp2 w1
              = (Inr (Some (row, None)),
                 w1\<lparr>trace := trace w1 @ [DbFindBookByPk bid, DbFindOneUserBook uid bid]\<rparr>))"
proof -
  obtain found bk row where r: "res1 = Some (found, bk)" "ub_id found = ub_id row"
    "userId row = uid" "bookId row = bid" "usersBooks w1 = usersBooks w @ [row]"
    "books w1 = books w" "find (\<lambda>b. b_id b = bid) (books w) \<noteq> None"
    using addBookToUser_first [OF faults noprior first] by blast
  have existing: "find (\<lambda>r. userId r = uid \<and> bookId r = bid) (usersBooks w1) = Some row"
    using noprior r(3,4,5) by (simp add: find_snoc)
  have book1: "find (\<lambda>b. b_id b = bid) (books w1) \<noteq> None"
    using r(6,7) by simp
  have rows: "usersBooks (snd (addBookToUser env now2 uid bid rating2 started2 finished2 notes2 imp2 w1))
             = usersBooks w1"
    using addBookToUser_existing_rows [OF existing] .
  have again: "addBookToUser env now2 uid bid rating2 started2 finished2 notes2 imp2 w1
              = (Inr (Some (row, None)),
                 w1\<lparr>trace := trace w1 @ [DbFindBookByPk bid, DbFindOneUserBook uid bid]\<rparr>)"
    if "\<not> ratingAbove10 rating2" "\<not> startedAfterFinished started2 finished2"
      "\<not> startedInFuture now2 started2"
    using addBookToUser_existing [OF faults book1 existing that] .
  show ?thesis
    using r(1-5) rows again by blast
qed

theorem addBookToUser_idempotent_witness:
  "dbFault env0 = (\<lambda>ev. None)
   \<and> find (\<lambda>r. userId r = 1 \<and> bookId r = 5) (usersBooks world0) = None
   \<and> addBookToUser env0 300 1 5 (Some 8) (Some 100) (Some 200) None False world0
       = (Inr (Some (row1, Some book5)),
          world1\<lparr>trace := [DbFindBookByPk 5, DbFindOneUserBook 1 5,
                            DbCreate 1 5 (Some 8) (Some 100) (Some 200) None False, DbFindOneId 1]\<rparr>)
   \<and> \<not> ratingAbove10 (Some 3) \<and> \<not> startedAfterFinished None None \<and> \<not> startedInFuture 400 None
   \<and> fst (addBookToUser env0 400 1 5 (Some 3) None None (Some ''again'') True
        (world1\<lparr>trace := [DbFindBookByPk 5, DbFindOneUserBook 1 5,
                            DbCreate 1 5 (Some 8) (Some 100) (Some 200) None False, DbFindOneId 1]\<rparr>))
       = Inr (Some (row1, None))
   \<and> usersBooks (snd (addBookToUser env0 400 1 5 (Some 3) None None (Some ''again'') True
        (world1\<lparr>trace := [DbFindBookByPk 5, DbFindOneUserBook 1 5,
                            DbCreate 1 5 (Some 8) (Some 100) (Some 200) None False, DbFindOneId 1]\<rparr>)))
       = [row1]"
proof -
  let ?w1 = "world1\<lparr>trace := [DbFindBookByPk 5, DbFindOneUserBook 1 5,
                            DbCreate 1 5 (Some 8) (Some 100) (Some 200) None False, DbFindOneId 1]\<rparr>"
  have faults: "dbFault env0 = (\<lambda>ev. None)"
    by (simp add: env0_def)
  have noprior: "find (\<lambda>r. userId r = 1 \<and> bookId r = 5) (usersBooks world0) = None"
    by (simp add: world0_def)
  have first: "addBookToUser env0 300 1 5 (Some 8) (Some 100) (Some 200) None False world0
       = (Inr (Some (row1, Some book5)), ?w1)"
    by (simp add: addBookToUser_def ratingAbove10_def startedAfterFinished_def
        startedInFuture_def findBookByPk_def findOneUserBook_def createUsersBooks_def
        findOneId_def joinBook_def validateRow_def ratingOrNull_def notesOrNull_def
        io_defs env0_def world0_def world1_def row1_def book5_def)
  have pass: "\<not> ratingAbove10 (Some 3)" "\<not> startedAfterFinished None None"
    "\<not> startedInFuture 400 None"
    by (simp_all add: ratingAbove10_def startedAfterFinished_def startedInFuture_def)
  obtain found bk row where r: "Some (row1, Some book5) = Some (found, bk)"
    "usersBooks ?w1 = usersBooks world0 @ [row]"
    "addBookToUser env0 400 1 5 (Some 3) None None (Some ''again'') True ?w1
              = (Inr (Some (row, None)),
                 ?w1\<lparr>trace := trace ?w1 @ [DbFindBookByPk 5, DbFindOneUserBook 1 5]\<rparr>)"
    using addBookToUser_idempotent [OF faults noprior first,
        of 400 "Some 3" None None "Some ''again''" True] pass
    by blast
  have "row = row1"
    using r(2) by (simp add: world0_def world1_def)
  then show ?thesis
    using faults noprior first pass r(3) by (simp add: world1_def)
qed

text \<open>
  C1. In \<open>getBooksForUser\<close> the provider is consulted for an association exactly when
  the cached metadata of its book is not valid, that is when the blob is \<open>null\<close> or its
  nested title is missing or empty. After the \<open>findAll\<close>, the calls made are: first one
  fetch for each of the user's books with such a cache, in the order of the
  associations; then the writes of the fetched metadata to these books, one for each
  fetch, in the order in which the callbacks are resumed (whatever that order is: the
  schedule is arbitrary). No call is made for a book whose cache is valid. After the
  call the store holds each such book with the fetched metadata, and the entries
  returned carry it. When the fetched metadata is itself valid, a second call, under
  any schedule, makes the \<open>findAll\<close> and nothing else: no fetch.
  (Assumed: the store does not fail, book keys are unique, every association of the
  user references a book, titles are strings when present, and the provider answers
  for the books it is asked about.)
\<close>

theorem getBooksForUser_refreshes_stale_only:
  assumes faults: "dbFault env = (\<lambda>ev. None)"
      and pk: "distinct (map b_id (books w))"
      and fk: "\<forall>r \<in> set (usersBooks w). userId r = uid \<longrightarrow> bookId r \<in> b_id ` set (books w)"
      and typed: "\<forall>b \<in> set (userBooks w uid). titleWellTyped (bookDetails b)"
      and provider: "\<forall>b \<in> set (userBooks w uid). \<not> validCachedMetadata (bookDetails b)
                       \<longrightarrow> (\<exists>d. getFromBookQuickLink env (quickLink b) = Inr d)"
  shows "(\<exists>us. trace (snd (getBooksForUser env sched uid w))
                 = trace w @ DbFindAll uid #
                   map fetchCall
                     (filter (\<lambda>b. \<not> validCachedMetadata (bookDetails b)) (userBooks w uid)) @ us
              \<and> mset us = mset (concat (map (writeCalls env)
                                 (filter (\<lambda>b. \<not> validCachedMetadata (bookDetails b))
                                    (userBooks w uid)))))
       \<and> (\<forall>b \<in> set (userBooks w uid). \<not> validCachedMetadata (bookDetails b)
             \<longrightarrow> withFetched env b \<in> set (books (snd (getBooksForUser env sched uid w))))
       \<and> fst (getBooksForUser env sched uid w) = Inr (map (entryView env) (userEntries w uid))
       \<and> ((\<forall>b \<in> set (userBooks w uid). \<not> validCachedMetadata (bookDetails b)
              \<longrightarrow> validCachedMetadata (bookDetails (withFetched env b)))
           \<longrightarrow> trace (snd (getBooksForUser env sched2 uid (snd (getBooksForUser env sched uid w))))
                 = trace (snd (getBooksForUser env sched uid w)) @ [DbFindAll uid])"
proof -
  define g where "g = (\<lambda>x. if b_id x \<in> staleIds (userEntries w uid) then refreshed env x else x)"
  have stale_iff: "cacheStale (bookDetails b) \<longleftrightarrow> \<not> validCachedMetadata (bookDetails b)"
    if "b \<in> set (userBooks w uid)" for b
    using typed that stale_iff_invalid by blast
  have same_filter: "filter (\<lambda>b. cacheStale (bookDetails b)) (userBooks w uid)
      = filter (\<lambda>b. \<not> validCachedMetadata (bookDetails b)) (userBooks w uid)"
    using stale_iff by (intro filter_cong) auto
  have provider': "\<forall>b \<in> set (userBooks w uid). cacheStale (bookDetails b)
                       \<longrightarrow> (\<exists>d. getFromBookQuickLink env (quickLink b) = Inr d)"
    using provider stale_iff by blast
  obtain us where run: "getBooksForUser env sched uid w =
        (Inr (map (entryView env) (userEntries w uid)),
         w\<lparr>books := map g (books w),
           trace := trace w @ DbFindAll uid #
                    map fetchCall
                      (filter (\<lambda>b. \<not> validCachedMetadata (bookDetails b)) (userBooks w uid)) @ us\<rparr>)"
    and us: "mset us = mset (concat (map (writeCalls env)
                                 (filter (\<lambda>b. \<not> validCachedMetadata (bookDetails b))
                                    (userBooks w uid))))"
    using getBooksForUser_run [OF faults pk fk provider', of sched]
    unfolding same_filter g_def by blast
  let ?tr = "trace w @ DbFindAll uid #
                    map fetchCall
                      (filter (\<lambda>b. \<not> validCachedMetadata (bookDetails b)) (userBooks w uid)) @ us"
  let ?wb = "w\<lparr>books := map g (books w), trace := ?tr\<rparr>"
  have calls: "\<exists>us. trace (snd (getBooksForUser env sched uid w))
                 = trace w @ DbFindAll uid #
                   map fetchCall
                     (filter (\<lambda>b. \<not> validCachedMetadata (bookDetails b)) (userBooks w uid)) @ us
              \<and> mset us = mset (concat (map (writeCalls env)
                                 (filter (\<lambda>b. \<not> validCachedMetadata (bookDetails b))
                                    (userBooks w uid))))"
    using run us by (intro exI [of _ us]) simp
  have g_stale: "g b = withFetched env b"
    if "b \<in> set (userBooks w uid)" "cacheStale (bookDetails b)" for b
  proof -
    have "b_id b \<in> staleIds (userEntries w uid)"
      using that by (auto simp: staleIds_def userBooks_def)
    then show ?thesis
      using that(2) by (simp add: g_def refreshed_def)
  qed
  have g_fresh: "g b = b" if "\<not> cacheStale (bookDetails b)" for b
    using that by (simp add: g_def refreshed_def)
  have persisted: "\<forall>b \<in> set (userBooks w uid). \<not> validCachedMetadata (bookDetails b)
             \<longrightarrow> withFetched env b \<in> set (books (snd (getBooksForUser env sched uid w)))"
  proof (intro ballI impI)
    fix b assume b: "b \<in> set (userBooks w uid)" "\<not> validCachedMetadata (bookDetails b)"
    then have "cacheStale (bookDetails b)"
      using stale_iff by blast
    then have eq: "g b = withFetched env b"
      using g_stale b(1) by blast
    have "b \<in> set (books w)"
      using userBooks_in_store [OF fk] b(1) by blast
    then have "g b \<in> g ` set (books w)"
      by (rule imageI)
    then have "withFetched env b \<in> set (map g (books w))"
      unfolding eq by simp
    then show "withFetched env b \<in> set (books (snd (getBooksForUser env sched uid w)))"
      using run by simp
  qed
  have again: "trace (snd (getBooksForUser env sched2 uid (snd (getBooksForUser env sched uid w))))
                 = trace (snd (getBooksForUser env sched uid w)) @ [DbFindAll uid]"
    if valid: "\<forall>b \<in> set (userBooks w uid). \<not> validCachedMetadata (bookDetails b)
              \<longrightarrow> validCachedMetadata (bookDetails (withFetched env b))"
  proof -
    have key: "\<And>x. b_id (g x) = b_id x"
      by (simp add: g_def)
    have books1: "userBooks ?wb uid = map g (userBooks w uid)"
      using userBooks_after [where g = g and w = w and tr = ?tr and uid = uid, OF key] .
    have fresh1: "\<not> cacheStale (bookDetails (g b))" if b: "b \<in> set (userBooks w uid)" for b
    proof (cases "cacheStale (bookDetails b)")
      case True
      then have "validCachedMetadata (bookDetails (withFetched env b))"
        using valid stale_iff b by blast
      then show ?thesis
        using g_stale [OF b True] valid_not_stale by simp
    next
      case False
      then show ?thesis
        using g_fresh [OF False] by simp
    qed
    have none_stale: "filter (\<lambda>b. cacheStale (bookDetails b)) (userBooks ?wb uid) = []"
      unfolding books1 using fresh1 by (simp add: filter_empty_conv)
    have pk1: "distinct (map b_id (books ?wb))"
      using pk by (simp add: comp_def key)
    have fk1: "\<forall>r \<in> set (usersBooks ?wb). userId r = uid \<longrightarrow> bookId r \<in> b_id ` set (books ?wb)"
    proof -
      have "b_id ` set (books ?wb) = b_id ` set (books w)"
        by (simp add: image_image key)
      then show ?thesis
        using fk by simp
    qed
    have provider1: "\<forall>b \<in> set (userBooks ?wb uid). cacheStale (bookDetails b)
                       \<longrightarrow> (\<exists>d. getFromBookQuickLink env (quickLink b) = Inr d)"
      unfolding books1 using fresh1 by auto
    have "trace (snd (getBooksForUser env sched2 uid ?wb)) = trace ?wb @ [DbFindAll uid]"
      using getBooksForUser_run [OF faults pk1 fk1 provider1, of sched2] none_stale by auto
    then show ?thesis
      using run by simp
  qed
  show ?thesis
    using calls persisted run again by simp
qed

theorem getBooksForUser_refreshes_stale_only_witness:
  "dbFault env0 = (\<lambda>ev. None)
   \<and> distinct (map b_id (books world3))
   \<and> userBooks world3 1 = [book5, book6, book7]
   \<and> \<not> validCachedMetadata (bookDetails book5)
   \<and> validCachedMetadata (bookDetails book6)
   \<and> \<not> validCachedMetadata (bookDetails book7)
   \<and> withFetched env0 book5 = book5\<lparr>bookDetails := Some dune\<rparr>
   \<and> withFetched env0 book7 = book7\<lparr>bookDetails := Some dune\<rparr>
   \<and> validCachedMetadata (Some dune)
   \<and> trace (snd (getBooksForUser env0 [] 1 world3))
       = [DbFindAll 1, ProviderFetch ''volumes/5'', ProviderFetch ''volumes/7'',
          DbUpdateBook 5 dune, DbUpdateBook 7 dune]
   \<and> trace (snd (getBooksForUser env0 [2, 0] 1 world3))
       = [DbFindAll 1, ProviderFetch ''volumes/5'', ProviderFetch ''volumes/7'',
          DbUpdateBook 7 dune, DbUpdateBook 5 dune]
   \<and> book5\<lparr>bookDetails := Some dune\<rparr> \<in> set (books (snd (getBooksForUser env0 [2, 0] 1 world3)))
   \<and> book7\<lparr>bookDetails := Some dune\<rparr> \<in> set (books (snd (getBooksForUser env0 [2, 0] 1 world3)))
   \<and> trace (snd (getBooksForUser env0 [1] 1 (snd (getBooksForUser env0 [2, 0] 1 world3))))
       = [DbFindAll 1, ProviderFetch ''volumes/5'', ProviderFetch ''volumes/7'',
          DbUpdateBook 7 dune, DbUpdateBook 5 dune, DbFindAll 1]"
proof -
  have faults: "dbFault env0 = (\<lambda>ev. None)"
    by (simp add: env0_def)
  have pk: "distinct (map b_id (books world3))"
    by (simp add: world3_def book5_def book6_def book7_def)
  have fk: "\<forall>r \<in> set (usersBooks world3). userId r = 1 \<longrightarrow> bookId r \<in> b_id ` set (books world3)"
    by (simp add: world3_def row1_def row2_def row3_def book5_def book6_def book7_def)
  have ub: "userBooks world3 1 = [book5, book6, book7]"
    by (simp add: userBooks_def userEntries_def joinBook_def world3_def row1_def row2_def row3_def
        book5_def book6_def book7_def)
  have v5: "\<not> validCachedMetadata (bookDetails book5)"
    and v6: "validCachedMetadata (bookDetails book6)"
    and v7: "\<not> validCachedMetadata (bookDetails book7)"
    and vd: "validCachedMetadata (Some dune)"
    by (simp_all add: validCachedMetadata_def nestedTitle_def book5_def book6_def book7_def
        emma_def dune_def)
  have typed: "\<forall>b \<in> set (userBooks world3 1). titleWellTyped (bookDetails b)"
    by (simp add: ub titleWellTyped_def nestedTitle_def book5_def book6_def book7_def emma_def)
  have provider: "\<forall>b \<in> set (userBooks world3 1). \<not> validCachedMetadata (bookDetails b)
                       \<longrightarrow> (\<exists>d. getFromBookQuickLink env0 (quickLink b) = Inr d)"
    by (simp add: env0_def)
  have f5: "withFetched env0 book5 = book5\<lparr>bookDetails := Some dune\<rparr>"
    and f7: "withFetched env0 book7 = book7\<lparr>bookDetails := Some dune\<rparr>"
    by (simp_all add: withFetched_def env0_def)
  have run0: "trace (snd (getBooksForUser env0 [] 1 world3))
       = [DbFindAll 1, ProviderFetch ''volumes/5'', ProviderFetch ''volumes/7'',
          DbUpdateBook 5 dune, DbUpdateBook 7 dune]"
    by code_simp
  have run1: "trace (snd (getBooksForUser env0 [2, 0] 1 world3))
       = [DbFindAll 1, ProviderFetch ''volumes/5'', ProviderFetch ''volumes/7'',
          DbUpdateBook 7 dune, DbUpdateBook 5 dune]"
    by code_simp
  note inst = getBooksForUser_refreshes_stale_only [OF faults pk fk typed provider, of "[2, 0]" "[1]"]
  have persisted: "\<forall>b \<in> set (userBooks world3 1). \<not> validCachedMetadata (bookDetails b)
             \<longrightarrow> withFetched env0 b \<in> set (books (snd (getBooksForUser env0 [2, 0] 1 world3)))"
    using inst by blast
  have again: "trace (snd (getBooksForUser env0 [1] 1 (snd (getBooksForUser env0 [2, 0] 1 world3))))
                 = trace (snd (getBooksForUser env0 [2, 0] 1 world3)) @ [DbFindAll 1]"
    using inst vd by (simp add: ub v5 v6 v7 f5 f7)
  show ?thesis
    using faults pk ub v5 v6 v7 vd f5 f7 run0 run1 persisted again
    by simp
qed

text \<open>
  C8. As stated (a failure of the store or of the provider surfaces as a generic
  message that hides its cause) the claim fails: the \<open>catch\<close> block of every operation
  throws \<open>new Error(error.message)\<close>, so the message of the upstream \<open>Error\<close> reaches
  the caller unchanged. What holds, for every call an operation makes inside its
  \<open>try\<close> block: when the call fails (the provider rejects, the store fails, or the
  store refuses the row), the operation rejects with a new \<open>Error\<close> that carries the
  failure's own message, and with the generic \<open>An unknown error occurred\<close> only when
  the value thrown is not an \<open>Error\<close>. In \<open>getBooksForUser\<close>, where the callbacks run
  side by side and several calls may fail, the failure surfaced is that of one of the
  calls made (or the \<open>TypeError\<close> of a callback whose association has no book).
  \<open>Book.findByPk\<close> in \<open>addBookToUser\<close> is called outside the \<open>try\<close> block: its failure
  reaches the caller as thrown.
\<close>

theorem upstream_failure_message_passed_through:
  "((\<exists>ev \<in> set (newCalls w (snd (getBooksForUser env sched uid w))). callFails env w ev \<noteq> None) \<longrightarrow>
      (\<exists>t. fst (getBooksForUser env sched uid w) = Inl (rethrow t)
          \<and> (t = nullBookError \<and> (\<exists>e \<in> set (userEntries w uid). snd e = None)
              \<or> (\<exists>ev \<in> set (newCalls w (snd (getBooksForUser env sched uid w))).
                    callFails env w ev = Some t))))
   \<and> (\<forall>ev \<in> set (newCalls w (snd (getBookForUser env uid aid w))). \<forall>t.
        callFails env w ev = Some t \<longrightarrow> fst (getBookForUser env uid aid w) = Inl (rethrow t))
   \<and> (\<forall>ev \<in> set (newCalls w (snd (deleteBookFromUser env uid aid w))). \<forall>t.
        callFails env w ev = Some t \<longrightarrow> fst (deleteBookFromUser env uid aid w) = Inl (rethrow t))
   \<and> (\<forall>ev \<in> set (newCalls w (snd (updateUserBook env now uid aid rating started finished notes w))). \<forall>t.
        callFails env w ev = Some t
        \<longrightarrow> fst (updateUserBook env now uid aid rating started finished notes w) = Inl (rethrow t))
   \<and> (\<forall>ev \<in> set (newCalls w (snd (addBookToUser env now uid bid rating started finished notes imp w))). \<forall>t.
        callFails env w ev = Some t
        \<longrightarrow> fst (addBookToUser env now uid bid rating started finished notes imp w)
              = Inl (if ev = DbFindBookByPk bid then t else rethrow t))
   \<and> rethrow (JsError m) = JsError m
   \<and> rethrow (NonError v) = JsError ''An unknown error occurred''"
  using getBooksForUser_failure [of w env sched uid] getBookForUser_failure [of w env uid aid]
    deleteBookFromUser_failure [of w env uid aid]
    updateUserBook_failure [of w env now uid aid rating started finished "notes"]
    addBookToUser_failure [of w env now uid bid rating started finished "notes" imp]
  by (simp add: rethrow_def)

theorem upstream_failure_message_passed_through_witness:
  "fst (getBooksForUser (failingAt (DbUpdateBook 7 dune) (JsError ''deadlock detected'')) [2, 0] 1 world3)
     = Inl (JsError ''deadlock detected'')
   \<and> fst (getBooksForUser envDown [0, 2] 1 world3) = Inl (JsError ''connect ECONNREFUSED 10.0.0.7:443'')
   \<and> fst (getBookForUser envDown 1 1 world1) = Inl (JsError ''connect ECONNREFUSED 10.0.0.7:443'')
   \<and> fst (deleteBookFromUser envStoreDown 1 1 world1)
       = Inl (JsError ''Connection terminated unexpectedly'')
   \<and> fst (updateUserBook (failingAt (DbUpdate 1 (Some 3) None None None) (JsError ''deadlock detected''))
            300 1 1 (Some 3) None None None world1)
       = Inl (JsError ''deadlock detected'')
   \<and> fst (updateUserBook (failingAt (DbFindOneId 1) (NonError ''boom''))
            300 1 1 (Some 3) None None None world1)
       = Inl (JsError ''An unknown error occurred'')
   \<and> fst (addBookToUser (failingAt (DbCreate 1 5 (Some 8) None None None False) (NonError ''boom''))
            300 1 5 (Some 8) None None None False world0)
       = Inl (JsError ''An unknown error occurred'')
   \<and> fst (addBookToUser (failingAt (DbFindOneId 1) (JsError ''read timeout''))
            300 1 5 (Some 8) None None None False world0)
       = Inl (JsError ''read timeout'')
   \<and> fst (addBookToUser env0 300 1 5 (Some (- 3)) None None None False world0)
       = Inl (JsError ''Validation error: Validation min on userRating failed'')
   \<and> fst (addBookToUser (failingAt (DbFindBookByPk 5) (NonError ''boom''))
            300 1 5 (Some 8) None None None False world0)
       = Inl (NonError ''boom'')"
proof -
  note all = upstream_failure_message_passed_through
  note list = all [THEN conjunct1, rule_format]
  note get = all [THEN conjunct2, THEN conjunct1, rule_format]
  note del = all [THEN conjunct2, THEN conjunct2, THEN conjunct1, rule_format]
  note upd = all [THEN conjunct2, THEN conjunct2, THEN conjunct2, THEN conjunct1, rule_format]
  note add = all [THEN conjunct2, THEN conjunct2, THEN conjunct2, THEN conjunct2, THEN conjunct1,
      rule_format]
  let ?deadlock = "JsError ''deadlock detected''"
  let ?refused = "JsError ''connect ECONNREFUSED 10.0.0.7:443''"
  let ?e1 = "failingAt (DbUpdateBook 7 dune) ?deadlock"
  have entries: "\<not> (\<exists>e \<in> set (userEntries world3 1). snd e = None)"
    by code_simp
  have calls1: "newCalls world3 (snd (getBooksForUser ?e1 [2, 0] 1 world3))
      = [DbFindAll 1, ProviderFetch ''volumes/5'', ProviderFetch ''volumes/7'',
         DbUpdateBook 7 dune, DbUpdateBook 5 dune]"
    by code_simp
  have fails1: "callFails ?e1 world3 (DbUpdateBook 7 dune) = Some ?deadlock"
    "callFails ?e1 world3 (DbFindAll 1) = None"
    "callFails ?e1 world3 (ProviderFetch ''volumes/5'') = None"
    "callFails ?e1 world3 (ProviderFetch ''volumes/7'') = None"
    "callFails ?e1 world3 (DbUpdateBook 5 dune) = None"
    by code_simp+
  obtain t1 where t1: "fst (getBooksForUser ?e1 [2, 0] 1 world3) = Inl (rethrow t1)"
      "\<exists>ev \<in> set (newCalls world3 (snd (getBooksForUser ?e1 [2, 0] 1 world3))).
          callFails ?e1 world3 ev = Some t1"
    using list [of world3 ?e1 "[2, 0]" 1] entries calls1 fails1 by auto
  then have c1: "fst (getBooksForUser ?e1 [2, 0] 1 world3) = Inl ?deadlock"
    using calls1 fails1 by (auto simp: rethrow_def)
  have calls2: "newCalls world3 (snd (getBooksForUser envDown [0, 2] 1 world3))
      = [DbFindAll 1, ProviderFetch ''volumes/5'', ProviderFetch ''volumes/7'']"
    by code_simp
  have fails2: "callFails envDown world3 (DbFindAll 1) = None"
    "callFails envDown world3 (ProviderFetch ''volumes/5'') = Some ?refused"
    "callFails envDown world3 (ProviderFetch ''volumes/7'') = Some ?refused"
    by code_simp+
  obtain t2 where t2: "fst (getBooksForUser envDown [0, 2] 1 world3) = Inl (rethrow t2)"
      "\<exists>ev \<in> set (newCalls world3 (snd (getBooksForUser envDown [0, 2] 1 world3))).
          callFails envDown world3 ev = Some t2"
    using list [of world3 envDown "[0, 2]" 1] entries calls2 fails2 by auto
  then have c2: "fst (getBooksForUser envDown [0, 2] 1 world3) = Inl ?refused"
    using calls2 fails2 by (auto simp: rethrow_def)
  have c3: "fst (getBookForUser envDown 1 1 world1) = Inl (rethrow ?refused)"
    by (rule get [where ev = "ProviderFetch ''volumes/5''"]) code_simp+
  have c4: "fst (deleteBookFromUser envStoreDown 1 1 world1)
      = Inl (rethrow (JsError ''Connection terminated unexpectedly''))"
    by (rule del [where ev = "DbDestroy 1 1"]) code_simp+
  have c5: "fst (updateUserBook (failingAt (DbUpdate 1 (Some 3) None None None) ?deadlock)
            300 1 1 (Some 3) None None None world1) = Inl (rethrow ?deadlock)"
    by (rule upd [where ev = "DbUpdate 1 (Some 3) None None None"]) code_simp+
  have c6: "fst (updateUserBook (failingAt (DbFindOneId 1) (NonError ''boom''))
            300 1 1 (Some 3) None None None world1) = Inl (rethrow (NonError ''boom''))"
    by (rule upd [where ev = "DbFindOneId 1"]) code_simp+
  have c7: "fst (addBookToUser (failingAt (DbCreate 1 5 (Some 8) None None None False) (NonError ''boom''))
            300 1 5 (Some 8) None None None False world0)
      = Inl (if DbCreate 1 5 (Some 8) None None None False = DbFindBookByPk 5
             then NonError ''boom'' else rethrow (NonError ''boom''))"
    by (rule add [where ev = "DbCreate 1 5 (Some 8) None None None False"]) code_simp+
  have c8: "fst (addBookToUser (failingAt (DbFindOneId 1) (JsError ''read timeout''))
            300 1 5 (Some 8) None None None False world0)
      = Inl (if DbFindOneId 1 = DbFindBookByPk 5
             then JsError ''read timeout'' else rethrow (JsError ''read timeout''))"
    by (rule add [where ev = "DbFindOneId 1"]) code_simp+
  have c9: "fst (addBookToUser env0 300 1 5 (Some (- 3)) None None None False world0)
      = Inl (if DbCreate 1 5 (Some (- 3)) None None None False = DbFindBookByPk 5
             then JsError ''Validation error: Validation min on userRating failed''
             else rethrow (JsError ''Validation error: Validation min on userRating failed''))"
    by (rule add [where ev = "DbCreate 1 5 (Some (- 3)) None None None False"]) code_simp+
  have c10: "fst (addBookToUser (failingAt (DbFindBookByPk 5) (NonError ''boom''))
            300 1 5 (Some 8) None None None False world0)
      = Inl (if DbFindBookByPk 5 = DbFindBookByPk 5
             then NonError ''boom'' else rethrow (NonError ''boom''))"
    by (rule add [where ev = "DbFindBookByPk 5"]) code_simp+
  show ?thesis
    using c1 c2 c3 c4 c5 c6 c7 c8 c9 c10 by (simp add: rethrow_def)
qed

theorem upstream_message_exposed_counterexample:
  "getFromBookQuickLink envDown ''volumes/5'' = Inl (JsError ''connect ECONNREFUSED 10.0.0.7:443'')
   \<and> fst (getBookForUser envDown 1 1 world1) = Inl (JsError ''connect ECONNREFUSED 10.0.0.7:443'')
   \<and> fst (getBooksForUser envDown [] 1 world1) = Inl (JsError ''connect ECONNREFUSED 10.0.0.7:443'')
   \<and> fst (deleteBookFromUser envStoreDown 1 1 world1)
       = Inl (JsError ''Connection terminated unexpectedly'')"
  by code_simp

text \<open>
  C10. The two read operations return books of different shapes. \<open>getBookForUser\<close>
  spreads the fetched metadata into the book: every key of the metadata is a top-level
  field of \<open>book\<close> with the fetched value, and the field \<open>bookDetails\<close> keeps the
  cached value of the row, which the fetch does not touch (the metadata itself having
  no key \<open>bookDetails\<close>). \<open>getBooksForUser\<close> nests the metadata: the fields of each
  \<open>book\<close> are the columns of the row only, and \<open>bookDetails\<close> holds the metadata,
  the fetched one when the cache was stale and the cached one otherwise, whatever the
  order in which the callbacks are resumed.
\<close>

theorem single_and_list_shapes_differ:
  assumes faults: "dbFault env = (\<lambda>ev. None)"
      and pk: "distinct (map b_id (books w))"
      and fk: "\<forall>r \<in> set (usersBooks w). userId r = uid \<longrightarrow> bookId r \<in> b_id ` set (books w)"
      and provider: "\<forall>b \<in> set (userBooks w uid). cacheStale (bookDetails b)
                       \<longrightarrow> (\<exists>d. getFromBookQuickLink env (quickLink b) = Inr d)"
      and found: "find (\<lambda>r. userId r = uid \<and> ub_id r = aid) (usersBooks w) = Some r"
      and joined: "find (\<lambda>b. b_id b = bookId r) (books w) = Some b"
      and fetched: "getFromBookQuickLink env (quickLink b) = Inr d"
      and nokey: "''bookDetails'' \<notin> fst ` set d"
  shows "(\<exists>single bk.
            fst (getBookForUser env uid aid w) = Inr (Some single)
          \<and> map_of single ''book'' = Some (JObj bk)
          \<and> (\<forall>k v. map_of d k = Some v \<longrightarrow> map_of bk k = Some v)
          \<and> map_of bk ''bookDetails'' = Some (jsonOpt JObj (bookDetails b)))
       \<and> (\<exists>views.
            fst (getBooksForUser env sched uid w) = Inr views
          \<and> list_all2
               (\<lambda>view e. \<exists>b' bk.
                    snd e = Some b'
                  \<and> map_of view ''book'' = Some (JObj bk)
                  \<and> map_of bk ''bookDetails'' = Some (jsonOpt JObj (bookDetails (refreshed env b')))
                  \<and> fst ` set bk = {''id'', ''quickLink'', ''bookDetails''})
               views (userEntries w uid))"
proof -
  let ?bk = "spread (bookToJSON b) d"
  let ?single = "spread (usersBooksToJSON r b) [(''book'', JObj ?bk)]"
  have one: "fst (getBookForUser env uid aid w) = Inr (Some ?single)"
    using faults found joined fetched
    by (simp add: getBookForUser_def findOneUserIdWithBook_def joinBook_def fetchDetails_def
        io_defs)
  have absent: "map_of d ''bookDetails'' = None"
    using nokey by (simp add: map_of_eq_None_iff)
  have cached: "map_of ?bk ''bookDetails'' = Some (jsonOpt JObj (bookDetails b))"
    using absent by (simp add: map_of_spread map_add_def bookToJSON_def)
  have overlay: "\<forall>k v. map_of d k = Some v \<longrightarrow> map_of ?bk k = Some v"
    by (simp add: map_of_spread)
  have single: "\<exists>single bk.
            fst (getBookForUser env uid aid w) = Inr (Some single)
          \<and> map_of single ''book'' = Some (JObj bk)
          \<and> (\<forall>k v. map_of d k = Some v \<longrightarrow> map_of bk k = Some v)
          \<and> map_of bk ''bookDetails'' = Some (jsonOpt JObj (bookDetails b))"
    using one book_of_view [of r b "JObj ?bk"] overlay cached by blast
  have many: "fst (getBooksForUser env sched uid w) = Inr (map (entryView env) (userEntries w uid))"
    using getBooksForUser_run [OF faults pk fk provider, of sched] by auto
  have each: "\<exists>b' bk.
                    snd e = Some b'
                  \<and> map_of (entryView env e) ''book'' = Some (JObj bk)
                  \<and> map_of bk ''bookDetails'' = Some (jsonOpt JObj (bookDetails (refreshed env b')))
                  \<and> fst ` set bk = {''id'', ''quickLink'', ''bookDetails''}"
    if e: "e \<in> set (userEntries w uid)" for e
  proof -
    obtain b' where b': "snd e = Some b'"
      using userEntries_joined [OF fk] e by blast
    then have "e = (fst e, Some b')"
      by (metis prod.collapse)
    then show ?thesis
      using entryView_shape [of env "fst e" b'] b' by metis
  qed
  have "list_all2
               (\<lambda>view e. \<exists>b' bk.
                    snd e = Some b'
                  \<and> map_of view ''book'' = Some (JObj bk)
                  \<and> map_of bk ''bookDetails'' = Some (jsonOpt JObj (bookDetails (refreshed env b')))
                  \<and> fst ` set bk = {''id'', ''quickLink'', ''bookDetails''})
               (map (entryView env) (userEntries w uid)) (userEntries w uid)"
    using each by (simp add: list_all2_map1 list_all2_same)
  then show ?thesis
    using single many by blast
qed

theorem single_and_list_shapes_differ_witness:
  "dbFault env0 = (\<lambda>ev. None)
   \<and> distinct (map b_id (books world2))
   \<and> find (\<lambda>r. userId r = 1 \<and> ub_id r = 2) (usersBooks world2) = Some row2
   \<and> find (\<lambda>b. b_id b = bookId row2) (books world2) = Some book6
   \<and> getFromBookQuickLink env0 (quickLink book6) = Inr dune
   \<and> ''bookDetails'' \<notin> fst ` set dune
   \<and> userEntries world2 1 = [(row1, Some book5), (row2, Some book6)]
   \<and> refreshed env0 book5 = book5\<lparr>bookDetails := Some dune\<rparr>
   \<and> refreshed env0 book6 = book6
   \<and> (\<exists>single bk.
          fst (getBookForUser env0 1 2 world2) = Inr (Some single)
        \<and> map_of single ''book'' = Some (JObj bk)
        \<and> map_of bk ''volumeInfo'' = Some (JObj [(''title'', JStr ''Dune''), (''pageCount'', JNum 412)])
        \<and> map_of bk ''bookDetails'' = Some (JObj emma))
   \<and> (\<exists>views.
          fst (getBooksForUser env0 [1, 0] 1 world2) = Inr views
        \<and> list_all2
             (\<lambda>view e. \<exists>b' bk.
                  snd e = Some b'
                \<and> map_of view ''book'' = Some (JObj bk)
                \<and> map_of bk ''bookDetails'' = Some (jsonOpt JObj (bookDetails (refreshed env0 b')))
                \<and> fst ` set bk = {''id'', ''quickLink'', ''bookDetails''})
             views [(row1, Some book5), (row2, Some book6)])"
proof -
  have faults: "dbFault env0 = (\<lambda>ev. None)"
    by (simp add: env0_def)
  have pk: "distinct (map b_id (books world2))"
    by (simp add: world2_def book5_def book6_def)
  have fk: "\<forall>r \<in> set (usersBooks world2). userId r = 1 \<longrightarrow> bookId r \<in> b_id ` set (books world2)"
    by (simp add: world2_def row1_def row2_def book5_def book6_def)
  have provider: "\<forall>b \<in> set (userBooks world2 1). cacheStale (bookDetails b)
                       \<longrightarrow> (\<exists>d. getFromBookQuickLink env0 (quickLink b) = Inr d)"
    by (simp add: env0_def)
  have found: "find (\<lambda>r. userId r = 1 \<and> ub_id r = 2) (usersBooks world2) = Some row2"
    by (simp add: world2_def row1_def row2_def)
  have joined: "find (\<lambda>b. b_id b = bookId row2) (books world2) = Some book6"
    by (simp add: world2_def row2_def book5_def book6_def)
  have fetched: "getFromBookQuickLink env0 (quickLink book6) = Inr dune"
    by (simp add: env0_def)
  have nokey: "''bookDetails'' \<notin> fst ` set dune"
    by (simp add: dune_def)
  have entries: "userEntries world2 1 = [(row1, Some book5), (row2, Some book6)]"
    by (simp add: userEntries_def joinBook_def world2_def row1_def row2_def book5_def book6_def)
  have r5: "refreshed env0 book5 = book5\<lparr>bookDetails := Some dune\<rparr>"
    by (simp add: refreshed_def withFetched_def cacheStale_def env0_def book5_def)
  have r6: "refreshed env0 book6 = book6"
    by (simp add: refreshed_def cacheStale_def optProp_def book6_def emma_def)
  have vi: "map_of dune ''volumeInfo'' = Some (JObj [(''title'', JStr ''Dune''), (''pageCount'', JNum 412)])"
    by (simp add: dune_def)
  have cached: "jsonOpt JObj (bookDetails book6) = JObj emma"
    by (simp add: jsonOpt_def book6_def)
  show ?thesis
    using single_and_list_shapes_differ [OF faults pk fk provider found joined fetched nokey, of "[1, 0]"]
      faults pk found joined fetched nokey r5 r6 vi
    unfolding entries cached
    by (simp only: simp_thms) blast
qed

end
